theory Spec2Isabelle
  imports Main
begin

section \<open>Tokens\<close>

text \<open>
  The analyzer of \<^verbatim>\<open>src/work1/lexer.cpp\<close> (the variant with nested blocks).
  The enumeration \<^verbatim>\<open>TokenType\<close> and the structure \<^verbatim>\<open>Token\<close> are
  taken over field by field.  The fields \<^verbatim>\<open>type\<close> and \<^verbatim>\<open>value\<close> carry the
  suffix \<open>_tok\<close> here.
\<close>

datatype TokenType =
    KEYWORD_VAR
  | KEYWORD_INTEGER
  | KEYWORD_LONGINT
  | KEYWORD_BOOL
  | KEYWORD_IF
  | KEYWORD_THEN
  | KEYWORD_ELSE
  | KEYWORD_WHILE
  | KEYWORD_DO
  | KEYWORD_FOR
  | KEYWORD_BEGIN
  | KEYWORD_END
  | KEYWORD_AND
  | KEYWORD_OR
  | OPERATOR_PLUS
  | OPERATOR_MINUS
  | OPERATOR_MULTIPLY
  | OPERATOR_DIVIDE
  | OPERATOR_ASSIGN
  | OPERATOR_LT
  | OPERATOR_GT
  | OPERATOR_NE
  | OPERATOR_GE
  | OPERATOR_LE
  | OPERATOR_EQ
  | DELIMITER_SEMICOLON
  | DELIMITER_COLON
  | DELIMITER_LPAREN
  | DELIMITER_RPAREN
  | DELIMITER_COMMA
  | IDENTIFIER
  | NUMBER
  | ERROR

record Token =
  type_tok :: TokenType
  value_tok :: string

definition mkToken :: "TokenType \<Rightarrow> string \<Rightarrow> Token" where
  "mkToken ty v = \<lparr>type_tok = ty, value_tok = v\<rparr>"

section \<open>Character classes\<close>

text \<open>
  \<^verbatim>\<open>std::isspace\<close>, \<^verbatim>\<open>std::isalpha\<close>, \<^verbatim>\<open>std::isdigit\<close>, \<^verbatim>\<open>std::isalnum\<close> and
  \<^verbatim>\<open>std::tolower\<close> in the default "C" locale, on bytes.  A byte above 127 is in
  none of the classes and is its own lower case.
\<close>

definition isspace :: "char \<Rightarrow> bool" where
  "isspace c = (let n = (of_char c :: nat) in n = 32 \<or> (9 \<le> n \<and> n \<le> 13))"

definition islower :: "char \<Rightarrow> bool" where
  "islower c = (let n = (of_char c :: nat) in 97 \<le> n \<and> n \<le> 122)"

definition isupper :: "char \<Rightarrow> bool" where
  "isupper c = (let n = (of_char c :: nat) in 65 \<le> n \<and> n \<le> 90)"

definition isalpha :: "char \<Rightarrow> bool" where
  "isalpha c = (isupper c \<or> islower c)"

definition isdigit :: "char \<Rightarrow> bool" where
  "isdigit c = (let n = (of_char c :: nat) in 48 \<le> n \<and> n \<le> 57)"

definition isalnum :: "char \<Rightarrow> bool" where
  "isalnum c = (isalpha c \<or> isdigit c)"

definition tolower :: "char \<Rightarrow> char" where
  "tolower c = (if isupper c then char_of (of_char c + 32 :: nat) else c)"

definition toLower :: "string \<Rightarrow> string" where
  "toLower str = map tolower str"

section \<open>The tokenizer\<close>

definition keywords_set :: "string list" where
  "keywords_set = [''var'', ''integer'', ''longint'', ''bool'', ''if'', ''then'', ''else'',
               ''while'', ''do'', ''for'', ''begin'', ''end'', ''and'', ''or'']"

definition types_set :: "string list" where
  "types_set = [''integer'', ''longint'', ''bool'']"

definition getKeywordType :: "string \<Rightarrow> TokenType" where
  "getKeywordType keyword =
     (if keyword = ''var'' then KEYWORD_VAR
      else if keyword = ''integer'' then KEYWORD_INTEGER
      else if keyword = ''longint'' then KEYWORD_LONGINT
      else if keyword = ''bool'' then KEYWORD_BOOL
      else if keyword = ''if'' then KEYWORD_IF
      else if keyword = ''then'' then KEYWORD_THEN
      else if keyword = ''else'' then KEYWORD_ELSE
      else if keyword = ''while'' then KEYWORD_WHILE
      else if keyword = ''do'' then KEYWORD_DO
      else if keyword = ''for'' then KEYWORD_FOR
      else if keyword = ''begin'' then KEYWORD_BEGIN
      else if keyword = ''end'' then KEYWORD_END
      else if keyword = ''and'' then KEYWORD_AND
      else if keyword = ''or'' then KEYWORD_OR
      else ERROR)"

definition isDelimiter :: "char \<Rightarrow> bool" where
  "isDelimiter c = (c \<in> set '';:,()+-*/<>='')"

text \<open>
  The scanning functions read the member \<^verbatim>\<open>source\<close> and advance the member
  \<^verbatim>\<open>pos\<close>; here the source is an argument and the position is passed in and
  returned.  The inner loop of \<^verbatim>\<open>readIdentifierOrKeyword\<close> (lines 123 to 126)
  collects \<^verbatim>\<open>tokenStr\<close>.
\<close>

function scanIdentifier :: "string \<Rightarrow> nat \<Rightarrow> string \<Rightarrow> string \<times> nat" where
  "scanIdentifier source pos tokenStr =
     (if pos < length source \<and> \<not> isspace (source ! pos) \<and> \<not> isDelimiter (source ! pos)
      then scanIdentifier source (pos + 1) (tokenStr @ [source ! pos])
      else (tokenStr, pos))"
  by pat_completeness auto
termination
  by (relation "measure (\<lambda>(source, pos, tokenStr). length source - pos)") auto

declare scanIdentifier.simps [simp del]

text \<open>
  Lines 128 to 145.  \<^verbatim>\<open>tokenStr[0]\<close> of an empty \<^verbatim>\<open>std::string\<close> is the
  terminating zero byte, which is not alphabetic.
\<close>

definition classifyIdentifier :: "string \<Rightarrow> Token" where
  "classifyIdentifier tokenStr =
     (let lowerToken = toLower tokenStr in
      if lowerToken \<in> set keywords_set then mkToken (getKeywordType lowerToken) tokenStr
      else if (case tokenStr of [] \<Rightarrow> True | c # cs \<Rightarrow> \<not> isalpha c) then mkToken ERROR tokenStr
      else if \<exists>c \<in> set tokenStr. \<not> isalnum c then mkToken ERROR tokenStr
      else mkToken IDENTIFIER tokenStr)"

definition readIdentifierOrKeyword :: "string \<Rightarrow> nat \<Rightarrow> Token \<times> nat" where
  "readIdentifierOrKeyword source pos =
     (case scanIdentifier source pos [] of
        (tokenStr, pos') \<Rightarrow> (classifyIdentifier tokenStr, pos'))"

function scanDigits :: "string \<Rightarrow> nat \<Rightarrow> string \<Rightarrow> string \<times> nat" where
  "scanDigits source pos tokenStr =
     (if pos < length source \<and> isdigit (source ! pos)
      then scanDigits source (pos + 1) (tokenStr @ [source ! pos])
      else (tokenStr, pos))"
  by pat_completeness auto
termination
  by (relation "measure (\<lambda>(source, pos, tokenStr). length source - pos)") auto

declare scanDigits.simps [simp del]

definition readNumber :: "string \<Rightarrow> nat \<Rightarrow> Token \<times> nat" where
  "readNumber source pos =
     (case scanDigits source pos [] of
        (tokenStr, pos') \<Rightarrow> (mkToken NUMBER tokenStr, pos'))"

text \<open>
  \<^verbatim>\<open>readOperator\<close> is only called with \<^verbatim>\<open>pos < source.length()\<close>; the
  character one past the current one is read only behind the bounds check of the source.
\<close>

definition readOperator :: "string \<Rightarrow> nat \<Rightarrow> Token \<times> nat" where
  "readOperator source pos =
     (let c = source ! pos in
      if c = CHR ''+'' then (mkToken OPERATOR_PLUS ''+'', pos + 1)
      else if c = CHR ''-'' then (mkToken OPERATOR_MINUS ''-'', pos + 1)
      else if c = CHR ''*'' then (mkToken OPERATOR_MULTIPLY ''*'', pos + 1)
      else if c = CHR ''/'' then (mkToken OPERATOR_DIVIDE ''/'', pos + 1)
      else if c = CHR '';'' then (mkToken DELIMITER_SEMICOLON '';'', pos + 1)
      else if c = CHR ''('' then (mkToken DELIMITER_LPAREN ''('', pos + 1)
      else if c = CHR '')'' then (mkToken DELIMITER_RPAREN '')'', pos + 1)
      else if c = CHR '','' then (mkToken DELIMITER_COMMA '','', pos + 1)
      else if c = CHR '':'' then
        (if pos + 1 < length source \<and> source ! (pos + 1) = CHR ''=''
         then (mkToken OPERATOR_ASSIGN '':='', pos + 2)
         else (mkToken DELIMITER_COLON '':'', pos + 1))
      else if c = CHR ''<'' then
        (if pos + 1 < length source \<and> source ! (pos + 1) = CHR ''>''
         then (mkToken OPERATOR_NE ''<>'', pos + 2)
         else if pos + 1 < length source \<and> source ! (pos + 1) = CHR ''=''
         then (mkToken OPERATOR_LE ''<='', pos + 2)
         else (mkToken OPERATOR_LT ''<'', pos + 1))
      else if c = CHR ''>'' then
        (if pos + 1 < length source \<and> source ! (pos + 1) = CHR ''=''
         then (mkToken OPERATOR_GE ''>='', pos + 2)
         else (mkToken OPERATOR_GT ''>'', pos + 1))
      else if c = CHR ''='' then
        (if pos + 1 < length source \<and> source ! (pos + 1) = CHR ''=''
         then (mkToken OPERATOR_EQ ''=='', pos + 2)
         else (mkToken ERROR ''='', pos + 1))
      else (mkToken ERROR [c], pos + 1))"

text \<open>
  The loop of \<^verbatim>\<open>tokenize\<close> (lines 105 to 116), started at the current
  \<^verbatim>\<open>pos\<close> with the tokens pushed so far; it returns the tokens and the final
  \<^verbatim>\<open>pos\<close>.  The analyzer is constructed with \<^verbatim>\<open>pos(0)\<close>.
\<close>

lemma isalpha_not_stop: "isalpha c \<Longrightarrow> \<not> isspace c \<and> \<not> isDelimiter c"
  by (auto simp: isalpha_def isupper_def islower_def isspace_def isDelimiter_def Let_def)

lemma scanIdentifier_pos: "pos \<le> snd (scanIdentifier source pos tokenStr)"
proof (induction source pos tokenStr rule: scanIdentifier.induct)
  case (1 source pos tokenStr)
  show ?case
  proof (cases "pos < length source \<and> \<not> isspace (source ! pos) \<and> \<not> isDelimiter (source ! pos)")
    case True
    with 1 have "pos + 1 \<le> snd (scanIdentifier source (pos + 1) (tokenStr @ [source ! pos]))"
      by blast
    with True show ?thesis by (subst scanIdentifier.simps) simp
  next
    case False
    then show ?thesis by (subst scanIdentifier.simps) auto
  qed
qed

lemma scanIdentifier_bound:
  "pos \<le> length source \<Longrightarrow> snd (scanIdentifier source pos tokenStr) \<le> length source"
proof (induction source pos tokenStr rule: scanIdentifier.induct)
  case (1 source pos tokenStr)
  then show ?case by (subst scanIdentifier.simps) auto
qed

lemma scanDigits_pos: "pos \<le> snd (scanDigits source pos tokenStr)"
proof (induction source pos tokenStr rule: scanDigits.induct)
  case (1 source pos tokenStr)
  show ?case
  proof (cases "pos < length source \<and> isdigit (source ! pos)")
    case True
    with 1 have "pos + 1 \<le> snd (scanDigits source (pos + 1) (tokenStr @ [source ! pos]))"
      by blast
    with True show ?thesis by (subst scanDigits.simps) simp
  next
    case False
    then show ?thesis by (subst scanDigits.simps) auto
  qed
qed

lemma scanDigits_bound:
  "pos \<le> length source \<Longrightarrow> snd (scanDigits source pos tokenStr) \<le> length source"
proof (induction source pos tokenStr rule: scanDigits.induct)
  case (1 source pos tokenStr)
  then show ?case by (subst scanDigits.simps) auto
qed

lemma readIdentifierOrKeyword_advances:
  assumes "pos < length source" and "isalpha (source ! pos)"
  shows "pos < snd (readIdentifierOrKeyword source pos)"
proof -
  from assms isalpha_not_stop
  have "scanIdentifier source pos [] = scanIdentifier source (pos + 1) ([] @ [source ! pos])"
    by (subst scanIdentifier.simps) simp
  moreover have "pos + 1 \<le> snd (scanIdentifier source (pos + 1) ([] @ [source ! pos]))"
    by (rule scanIdentifier_pos)
  ultimately show ?thesis
    by (auto simp: readIdentifierOrKeyword_def split: prod.splits)
qed

lemma readNumber_advances:
  assumes "pos < length source" and "isdigit (source ! pos)"
  shows "pos < snd (readNumber source pos)"
proof -
  from assms
  have "scanDigits source pos [] = scanDigits source (pos + 1) ([] @ [source ! pos])"
    by (subst scanDigits.simps) simp
  moreover have "pos + 1 \<le> snd (scanDigits source (pos + 1) ([] @ [source ! pos]))"
    by (rule scanDigits_pos)
  ultimately show ?thesis
    by (auto simp: readNumber_def split: prod.splits)
qed

lemma readOperator_advances: "pos < snd (readOperator source pos)"
  by (simp add: readOperator_def Let_def)

function tokenize_from :: "string \<Rightarrow> nat \<Rightarrow> Token list \<Rightarrow> Token list \<times> nat" where
  "tokenize_from source pos tokens =
     (if pos < length source then
        (let c = source ! pos in
         if isspace c then tokenize_from source (pos + 1) tokens
         else if isalpha c then
           tokenize_from source (snd (readIdentifierOrKeyword source pos))
             (tokens @ [fst (readIdentifierOrKeyword source pos)])
         else if isdigit c then
           tokenize_from source (snd (readNumber source pos))
             (tokens @ [fst (readNumber source pos)])
         else
           tokenize_from source (snd (readOperator source pos))
             (tokens @ [fst (readOperator source pos)]))
      else (tokens, pos))"
  by pat_completeness auto
termination
proof (relation "measure (\<lambda>(source, pos, tokens). length source - pos)")
  show "wf (measure (\<lambda>(source, pos, tokens). length source - pos))" by simp
next
  fix source :: string and pos :: nat and tokens :: "Token list" and x
  assume "pos < length source"
  then show "((source, pos + 1, tokens), source, pos, tokens)
      \<in> measure (\<lambda>(source, pos, tokens). length source - pos)"
    by simp
next
  fix source :: string and pos :: nat and tokens :: "Token list" and x
  assume "pos < length source" and "x = source ! pos" and "isalpha x"
  then have "pos < snd (readIdentifierOrKeyword source pos)"
    using readIdentifierOrKeyword_advances by blast
  with \<open>pos < length source\<close>
  show "((source, snd (readIdentifierOrKeyword source pos),
          tokens @ [fst (readIdentifierOrKeyword source pos)]), source, pos, tokens)
      \<in> measure (\<lambda>(source, pos, tokens). length source - pos)"
    by simp
next
  fix source :: string and pos :: nat and tokens :: "Token list" and x
  assume "pos < length source" and "x = source ! pos" and "isdigit x"
  then have "pos < snd (readNumber source pos)"
    using readNumber_advances by blast
  with \<open>pos < length source\<close>
  show "((source, snd (readNumber source pos), tokens @ [fst (readNumber source pos)]),
          source, pos, tokens)
      \<in> measure (\<lambda>(source, pos, tokens). length source - pos)"
    by simp
next
  fix source :: string and pos :: nat and tokens :: "Token list" and x
  assume "pos < length source"
  with readOperator_advances [of pos source]
  show "((source, snd (readOperator source pos), tokens @ [fst (readOperator source pos)]),
          source, pos, tokens)
      \<in> measure (\<lambda>(source, pos, tokens). length source - pos)"
    by simp
qed

declare tokenize_from.simps [simp del]

definition tokenize :: "string \<Rightarrow> Token list" where
  "tokenize source = fst (tokenize_from source 0 [])"

section \<open>Diagnostics and the analyzer state\<close>

text \<open>
  The member \<^verbatim>\<open>errors\<close> is a vector of message strings.  Each message of the source
  is one constructor here, named after what the message says, with the text that the
  source appends to the fixed part as its argument (\<open>None\<close> where the source appends its
  fixed word for "nothing").  The source line of each \<^verbatim>\<open>push_back\<close>:
  \<^item> \<open>EmptyProgram\<close> 60, \<open>MissingVar\<close> 211, \<open>MissingBegin\<close> 218, \<open>MissingEnd\<close> 225;
  \<^item> \<open>InvalidKeyword\<close> 232, \<open>NoValidIdentifier\<close> 237, \<open>ExpectedIdentifierAfterComma\<close> 250,
    \<open>InvalidIdentifier\<close> 254, \<open>MissingComma\<close> 262, \<open>MissingColon\<close> 267, \<open>ExpectedType\<close> 275,
    \<open>RepeatedDefinition\<close> 285, \<open>MissingSemicolonAfterDeclaration\<close> 292;
  \<^item> \<open>InvalidTokenInRealization\<close> 305, \<open>UndefinedVariable\<close> 314, \<open>MissingAssign\<close> 320,
    \<open>ExpectedNumberOrIdentifier\<close> 326, \<open>UndefinedVariableInAssignment\<close> 331,
    \<open>MissingSemicolonAfterAssignment\<close> 337;
  \<^item> \<open>MissingLParenAfterWhile\<close> 348, \<open>UnbalancedWhileCondition\<close> 361,
    \<open>MissingDoAfterWhile\<close> 366, \<open>MissingLParenAfterIf\<close> 377, \<open>UnbalancedIfCondition\<close> 390,
    \<open>MissingThenAfterIf\<close> 395;
  \<^item> \<open>UnmatchedEnd\<close> 408, \<open>MissingSemicolonAfterEnd\<close> 417, \<open>ElseWithoutIf\<close> 427,
    \<open>UnexpectedToken\<close> 433, \<open>MissingEndToMatch\<close> 441.
\<close>

datatype diag =
    EmptyProgram
  | MissingVar
  | MissingBegin
  | MissingEnd
  | InvalidKeyword string
  | NoValidIdentifier string
  | ExpectedIdentifierAfterComma
  | InvalidIdentifier string
  | MissingComma
  | MissingColon
  | ExpectedType "string option"
  | RepeatedDefinition string
  | MissingSemicolonAfterDeclaration
  | InvalidTokenInRealization string
  | UndefinedVariable string
  | MissingAssign string
  | ExpectedNumberOrIdentifier "string option"
  | UndefinedVariableInAssignment string
  | MissingSemicolonAfterAssignment
  | MissingLParenAfterWhile
  | UnbalancedWhileCondition
  | MissingDoAfterWhile
  | MissingLParenAfterIf
  | UnbalancedIfCondition
  | MissingThenAfterIf
  | UnmatchedEnd
  | MissingSemicolonAfterEnd string
  | ElseWithoutIf
  | UnexpectedToken string
  | MissingEndToMatch string

text \<open>
  The members the parser writes.  The token vector is not written after \<^verbatim>\<open>tokenize\<close>
  and is an argument of the parsing functions.
\<close>

record Analyzer =
  tokenPos :: nat
  symbolTable :: "string \<rightharpoonup> string"
  errors :: "diag list"

text \<open>
  A loop body either returns from the enclosing function (\<open>Return\<close>, with the state at the
  \<^verbatim>\<open>return\<close>) or falls through to the next test of the loop condition (\<open>Next\<close>).
\<close>

datatype ('r, 'n) step = Return 'r | Next 'n

abbreviation push_back :: "diag \<Rightarrow> Analyzer \<Rightarrow> Analyzer" where
  "push_back d st \<equiv> st\<lparr>errors := errors st @ [d]\<rparr>"

abbreviation advance :: "Analyzer \<Rightarrow> Analyzer" where
  "advance st \<equiv> st\<lparr>tokenPos := tokenPos st + 1\<rparr>"

abbreviation atEnd :: "Token list \<Rightarrow> Analyzer \<Rightarrow> bool" where
  "atEnd tokens st \<equiv> length tokens \<le> tokenPos st"

abbreviation curType :: "Token list \<Rightarrow> Analyzer \<Rightarrow> TokenType" where
  "curType tokens st \<equiv> type_tok (tokens ! tokenPos st)"

abbreviation curValue :: "Token list \<Rightarrow> Analyzer \<Rightarrow> string" where
  "curValue tokens st \<equiv> value_tok (tokens ! tokenPos st)"

section \<open>The declaration validator\<close>

text \<open>The comma loop of lines 247 to 260, with the local vector \<^verbatim>\<open>vars\<close>.\<close>

function commaLoop ::
  "Token list \<Rightarrow> Analyzer \<Rightarrow> string list \<Rightarrow> (Analyzer, Analyzer \<times> string list) step" where
  "commaLoop tokens st vars =
     (if tokenPos st < length tokens \<and> curType tokens st = DELIMITER_COMMA then
        (let st1 = advance st in
         if atEnd tokens st1 \<or> curType tokens st1 \<noteq> IDENTIFIER
         then Return (push_back ExpectedIdentifierAfterComma st1)
         else if curType tokens st1 = ERROR
         then Return (advance (push_back (InvalidIdentifier (curValue tokens st1)) st1))
         else commaLoop tokens (advance st1) (vars @ [curValue tokens st1]))
      else Next (st, vars))"
  by pat_completeness auto
termination
  by (relation "measure (\<lambda>(tokens, st, vars). length tokens - tokenPos st)") auto

declare commaLoop.simps [simp del]

text \<open>The insertion loop of lines 283 to 289.\<close>

fun insertVars :: "string list \<Rightarrow> string \<Rightarrow> Analyzer \<Rightarrow> (Analyzer, Analyzer) step" where
  "insertVars [] varType st = Next st"
| "insertVars (var # vars) varType st =
     (if symbolTable st var \<noteq> None then Return (push_back (RepeatedDefinition var) st)
      else insertVars vars varType (st\<lparr>symbolTable := (symbolTable st)(var \<mapsto> varType)\<rparr>))"

text \<open>
  One pass through the body of the loop of \<^verbatim>\<open>parseDefinitionBody\<close> (lines 231 to 295).
  The loop enters it only with \<^verbatim>\<open>tokenPos < tokens.size()\<close>.
\<close>

definition definitionStep :: "Token list \<Rightarrow> Analyzer \<Rightarrow> (Analyzer, Analyzer) step" where
  "definitionStep tokens st =
     (if curType tokens st = ERROR
      then Return (advance (push_back (InvalidKeyword (curValue tokens st)) st))
      else if curType tokens st \<noteq> IDENTIFIER
      then Return (advance (push_back (NoValidIdentifier (curValue tokens st)) st))
      else
        (let varName = curValue tokens st in
         case commaLoop tokens (advance st) [varName] of
           Return r \<Rightarrow> Return r
         | Next (st2, vars) \<Rightarrow>
             if tokenPos st2 < length tokens \<and> curType tokens st2 = IDENTIFIER
             then Return (push_back MissingComma st2)
             else if atEnd tokens st2 \<or> curType tokens st2 \<noteq> DELIMITER_COLON
             then Return (push_back MissingColon st2)
             else
               (let st3 = advance st2 in
                if atEnd tokens st3 \<or> toLower (curValue tokens st3) \<notin> set types_set
                then Return (push_back
                       (ExpectedType (if tokenPos st3 < length tokens
                                      then Some (curValue tokens st3) else None)) st3)
                else
                  (let varType = toLower (curValue tokens st3) in
                   case insertVars vars varType (advance st3) of
                     Return r \<Rightarrow> Return r
                   | Next st5 \<Rightarrow>
                       if atEnd tokens st5 \<or> curType tokens st5 \<noteq> DELIMITER_SEMICOLON
                       then Return (push_back MissingSemicolonAfterDeclaration st5)
                       else Next (advance st5)))))"

lemma commaLoop_Next_pos:
  "commaLoop tokens st vars = Next (st', vars') \<Longrightarrow> tokenPos st \<le> tokenPos st'"
proof (induction tokens st vars rule: commaLoop.induct)
  case (1 tokens st vars)
  show ?case
  proof (cases "tokenPos st < length tokens \<and> curType tokens st = DELIMITER_COMMA")
    case False
    with "1.prems" show ?thesis
      by (simp add: commaLoop.simps [of tokens st vars])
  next
    case True
    let ?st1 = "advance st"
    from True "1.prems"
    have ok: "\<not> (atEnd tokens ?st1 \<or> curType tokens ?st1 \<noteq> IDENTIFIER)"
      and ne: "\<not> curType tokens ?st1 = ERROR"
      and rec: "commaLoop tokens (advance ?st1) (vars @ [curValue tokens ?st1]) = Next (st', vars')"
      by (auto simp: commaLoop.simps [of tokens st vars] Let_def split: if_splits)
    from "1.IH" [OF True refl ok ne rec] show ?thesis by simp
  qed
qed

lemma insertVars_Next_pos:
  "insertVars vars varType st = Next st' \<Longrightarrow> tokenPos st' = tokenPos st"
  by (induction vars varType st rule: insertVars.induct) (auto split: if_splits)

lemma definitionStep_Next_pos:
  "definitionStep tokens st = Next st' \<Longrightarrow> tokenPos st < tokenPos st'"
  by (auto simp: definitionStep_def Let_def
      split: if_splits step.splits prod.splits
      dest!: commaLoop_Next_pos insertVars_Next_pos)

function parseDefinitionBody :: "Token list \<Rightarrow> Analyzer \<Rightarrow> Analyzer" where
  "parseDefinitionBody tokens st =
     (if tokenPos st < length tokens \<and> curType tokens st \<noteq> KEYWORD_BEGIN then
        (case definitionStep tokens st of
           Return r \<Rightarrow> r
         | Next st' \<Rightarrow> parseDefinitionBody tokens st')
      else st)"
  by pat_completeness auto
termination
  by (relation "measure (\<lambda>(tokens, st). length tokens - tokenPos st)")
    (auto dest: definitionStep_Next_pos)

declare parseDefinitionBody.simps [simp del]

section \<open>The structural validator\<close>

text \<open>
  The condition scan of lines 354 to 359 (and, the same text, 383 to 388), with the local
  \<^verbatim>\<open>int parenCount\<close> as an unbounded integer: started at one, the count never exceeds
  one plus the number of tokens (\<open>scanParens_count_bound\<close>), so the machine integer does
  not overflow on a token vector of fewer than \<open>2\<^sup>3\<^sup>1 - 1\<close> tokens.
\<close>

function scanParens :: "Token list \<Rightarrow> Analyzer \<Rightarrow> int \<Rightarrow> Analyzer \<times> int" where
  "scanParens tokens st parenCount =
     (if tokenPos st < length tokens \<and> parenCount > 0 then
        scanParens tokens (advance st)
          (if curType tokens st = DELIMITER_LPAREN then parenCount + 1
           else if curType tokens st = DELIMITER_RPAREN then parenCount - 1
           else parenCount)
      else (st, parenCount))"
  by pat_completeness auto
termination
  by (relation "measure (\<lambda>(tokens, st, parenCount). length tokens - tokenPos st)") auto

declare scanParens.simps [simp del]

text \<open>
  One pass through the body of the loop of \<^verbatim>\<open>parseRealizationBody\<close> (lines 304 to
  436), with the local vector \<^verbatim>\<open>blockStack\<close>.  The loop enters it only with
  \<^verbatim>\<open>tokenPos < tokens.size()\<close>.
\<close>

definition realizationStep ::
  "Token list \<Rightarrow> Analyzer \<Rightarrow> string list \<Rightarrow> (Analyzer, Analyzer \<times> string list) step" where
  "realizationStep tokens st blockStack =
     (if curType tokens st = ERROR
      then Return (advance (push_back (InvalidTokenInRealization (curValue tokens st)) st))
      else if curType tokens st = IDENTIFIER then
        (let varName = curValue tokens st in
         if symbolTable st varName = None
         then Return (push_back (UndefinedVariable varName) st)
         else
           (let st1 = advance st in
            if atEnd tokens st1 \<or> curType tokens st1 \<noteq> OPERATOR_ASSIGN
            then Return (push_back (MissingAssign varName) st1)
            else
              (let st2 = advance st1 in
               if atEnd tokens st2 \<or> (curType tokens st2 \<noteq> NUMBER \<and> curType tokens st2 \<noteq> IDENTIFIER)
               then Return (push_back
                      (ExpectedNumberOrIdentifier (if tokenPos st2 < length tokens
                                                   then Some (curValue tokens st2) else None)) st2)
               else if curType tokens st2 = IDENTIFIER \<and> symbolTable st2 (curValue tokens st2) = None
               then Return (push_back (UndefinedVariableInAssignment (curValue tokens st2)) st2)
               else
                 (let st3 = advance st2 in
                  if atEnd tokens st3 \<or> curType tokens st3 \<noteq> DELIMITER_SEMICOLON
                  then Return (push_back MissingSemicolonAfterAssignment st3)
                  else Next (advance st3, blockStack)))))
      else if curType tokens st = KEYWORD_WHILE then
        (let blockStack1 = blockStack @ [''while''];
             st1 = advance st in
         if atEnd tokens st1 \<or> curType tokens st1 \<noteq> DELIMITER_LPAREN
         then Return (push_back MissingLParenAfterWhile st1)
         else
           (case scanParens tokens (advance st1) 1 of
              (st2, parenCount) \<Rightarrow>
                if parenCount > 0 then Return (push_back UnbalancedWhileCondition st2)
                else if atEnd tokens st2 \<or> curType tokens st2 \<noteq> KEYWORD_DO
                then Return (push_back MissingDoAfterWhile st2)
                else Next (advance st2, blockStack1)))
      else if curType tokens st = KEYWORD_IF then
        (let blockStack1 = blockStack @ [''if''];
             st1 = advance st in
         if atEnd tokens st1 \<or> curType tokens st1 \<noteq> DELIMITER_LPAREN
         then Return (push_back MissingLParenAfterIf st1)
         else
           (case scanParens tokens (advance st1) 1 of
              (st2, parenCount) \<Rightarrow>
                if parenCount > 0 then Return (push_back UnbalancedIfCondition st2)
                else if atEnd tokens st2 \<or> curType tokens st2 \<noteq> KEYWORD_THEN
                then Return (push_back MissingThenAfterIf st2)
                else Next (advance st2, blockStack1)))
      else if curType tokens st = KEYWORD_BEGIN
      then Next (advance st, blockStack @ [''begin''])
      else if curType tokens st = KEYWORD_END then
        (if blockStack = [] then Return (push_back UnmatchedEnd st)
         else
           (let lastBlock = last blockStack;
                blockStack1 = butlast blockStack;
                st1 = advance st in
            if blockStack1 \<noteq> [] \<and> (atEnd tokens st1 \<or> curType tokens st1 \<noteq> DELIMITER_SEMICOLON)
            then Return (push_back (MissingSemicolonAfterEnd lastBlock) st1)
            else if tokenPos st1 < length tokens \<and> curType tokens st1 = DELIMITER_SEMICOLON
            then Next (advance st1, blockStack1)
            else Next (st1, blockStack1)))
      else if curType tokens st = KEYWORD_ELSE then
        (if blockStack = [] \<or> last blockStack \<noteq> ''if''
         then Return (push_back ElseWithoutIf st)
         else Next (advance st, blockStack))
      else Return (advance (push_back (UnexpectedToken (curValue tokens st)) st)))"

lemma scanParens_pos: "tokenPos st \<le> tokenPos (fst (scanParens tokens st parenCount))"
proof (induction tokens st parenCount rule: scanParens.induct)
  case (1 tokens st parenCount)
  show ?case
  proof (cases "tokenPos st < length tokens \<and> parenCount > 0")
    case True
    from "1.IH" [OF True] True show ?thesis
      by (subst scanParens.simps) simp
  next
    case False
    then show ?thesis by (subst scanParens.simps) auto
  qed
qed

lemma scanParens_Pair_pos:
  "scanParens tokens st parenCount = (st', n) \<Longrightarrow> tokenPos st \<le> tokenPos st'"
  using scanParens_pos [of st tokens parenCount] by simp

lemma realizationStep_Next_pos:
  "realizationStep tokens st blockStack = Next (st', blockStack') \<Longrightarrow> tokenPos st < tokenPos st'"
  by (auto simp: realizationStep_def Let_def
      split: if_splits prod.splits dest!: scanParens_Pair_pos)

text \<open>
  The loop of \<^verbatim>\<open>parseRealizationBody\<close> (line 303) with the check that follows it
  (lines 440 to 443); \<^verbatim>\<open>parseRealizationBody\<close> starts it with the empty stack.
\<close>

function realizationLoop :: "Token list \<Rightarrow> Analyzer \<Rightarrow> string list \<Rightarrow> Analyzer" where
  "realizationLoop tokens st blockStack =
     (if tokenPos st < length tokens \<and> curType tokens st \<noteq> KEYWORD_END then
        (case realizationStep tokens st blockStack of
           Return r \<Rightarrow> r
         | Next (st', blockStack') \<Rightarrow> realizationLoop tokens st' blockStack')
      else if blockStack \<noteq> [] then push_back (MissingEndToMatch (last blockStack)) st
      else st)"
  by pat_completeness auto
termination
  by (relation "measure (\<lambda>(tokens, st, blockStack). length tokens - tokenPos st)")
    (auto dest: realizationStep_Next_pos)

declare realizationLoop.simps [simp del]

definition parseRealizationBody :: "Token list \<Rightarrow> Analyzer \<Rightarrow> Analyzer" where
  "parseRealizationBody tokens st = realizationLoop tokens st []"

section \<open>The driver\<close>

definition parse :: "Token list \<Rightarrow> Analyzer \<Rightarrow> Analyzer" where
  "parse tokens st =
     (if atEnd tokens st \<or> curType tokens st \<noteq> KEYWORD_VAR
      then push_back MissingVar st
      else
        (let st2 = parseDefinitionBody tokens (advance st) in
         if errors st2 = [] \<and> (atEnd tokens st2 \<or> curType tokens st2 \<noteq> KEYWORD_BEGIN)
         then push_back MissingBegin st2
         else if errors st2 \<noteq> [] then st2
         else
           (let st4 = parseRealizationBody tokens (advance st2) in
            if errors st4 = [] \<and> (atEnd tokens st4 \<or> curType tokens st4 \<noteq> KEYWORD_END)
            then push_back MissingEnd st4
            else st4)))"

text \<open>
  The state of a freshly constructed analyzer (\<^verbatim>\<open>tokenPos(0)\<close>, empty table, no
  messages), and \<^verbatim>\<open>analyze\<close> without the printing of \<^verbatim>\<open>reportErrors\<close>: the run
  succeeds when the final \<open>errors\<close> is empty.  \<open>analyzeTokens\<close> is lines 59 to 63, what
  \<^verbatim>\<open>analyze\<close> does with the tokens once \<^verbatim>\<open>tokenize\<close> has returned them.
\<close>

definition initial :: Analyzer where
  "initial = \<lparr>tokenPos = 0, symbolTable = Map.empty, errors = []\<rparr>"

definition analyzeTokens :: "Token list \<Rightarrow> Analyzer" where
  "analyzeTokens tokens =
     (if tokens = [] then push_back EmptyProgram initial else parse tokens initial)"

definition analyze :: "string \<Rightarrow> Analyzer" where
  "analyze source = analyzeTokens (tokenize source)"

section \<open>Notions of the specification\<close>

text \<open>
  The specification speaks of a run of tokens with balanced parentheses.  The depth of
  a run is the number of its opening parentheses minus the number of its closing ones;
  a run is balanced when its depth is zero and no prefix of it has negative depth.
  After an opening parenthesis, the parentheses of the remaining tokens never balance
  when one plus the depth of every prefix (the whole included) stays positive.
\<close>

definition depth :: "Token list \<Rightarrow> int" where
  "depth ts = int (count_list (map type_tok ts) DELIMITER_LPAREN)
            - int (count_list (map type_tok ts) DELIMITER_RPAREN)"

definition balanced :: "Token list \<Rightarrow> bool" where
  "balanced ts = (depth ts = 0 \<and> list_all (\<lambda>k. 0 \<le> depth (take k ts)) [0..<length ts])"

definition neverCloses :: "Token list \<Rightarrow> bool" where
  "neverCloses ts = list_all (\<lambda>k. 0 < 1 + depth (take k ts)) [0..<Suc (length ts)]"

text \<open>
  The tokens of an identifier list \<^verbatim>\<open>ident{,ident}\<close> with the given names: an
  identifier, followed by pairs of a comma and an identifier.
\<close>

fun commaPairs :: "Token list \<Rightarrow> string list \<Rightarrow> bool" where
  "commaPairs [] [] = True"
| "commaPairs (c # t # ts) (v # vs) =
     (type_tok c = DELIMITER_COMMA \<and> type_tok t = IDENTIFIER \<and> value_tok t = v \<and>
      commaPairs ts vs)"
| "commaPairs ts vs = False"

fun identList :: "Token list \<Rightarrow> string list \<Rightarrow> bool" where
  "identList (t # ts) (v # vs) =
     (type_tok t = IDENTIFIER \<and> value_tok t = v \<and> commaPairs ts vs)"
| "identList ts vs = False"

text \<open>
  Two token sequences agree up to index \<open>p\<close> when both have a token at \<open>p\<close> and they
  have the same tokens at the indices up to and including \<open>p\<close>.
\<close>

definition agreeUpTo :: "nat \<Rightarrow> Token list \<Rightarrow> Token list \<Rightarrow> bool" where
  "agreeUpTo p tokens tokens' =
     (p < length tokens \<and> p < length tokens' \<and> take (Suc p) tokens = take (Suc p) tokens')"

section \<open>Auxiliary facts\<close>

subsection \<open>Whitespace\<close>

lemma tokenize_from_spaces:
  "(\<And>i. pos \<le> i \<Longrightarrow> i < length source \<Longrightarrow> isspace (source ! i)) \<Longrightarrow>
   tokenize_from source pos tokens = (tokens, max pos (length source))"
proof (induction source pos tokens rule: tokenize_from.induct)
  case (1 source pos tokens)
  show ?case
  proof (cases "pos < length source")
    case True
    with "1.prems" have sp: "isspace (source ! pos)" by simp
    have "tokenize_from source (pos + 1) tokens = (tokens, max (pos + 1) (length source))"
      using "1.IH"(1) [OF True refl sp] "1.prems" by simp
    with True sp show ?thesis
      by (simp add: tokenize_from.simps [of source pos tokens] max_def)
  next
    case False
    then show ?thesis
      by (simp add: tokenize_from.simps [of source pos tokens] max_def)
  qed
qed

subsection \<open>What each phase leaves unchanged, and how many messages it appends\<close>

lemma scanParens_frame:
  "symbolTable (fst (scanParens tokens st n)) = symbolTable st \<and>
   errors (fst (scanParens tokens st n)) = errors st"
proof (induction tokens st n rule: scanParens.induct)
  case (1 tokens st parenCount)
  show ?case
  proof (cases "tokenPos st < length tokens \<and> parenCount > 0")
    case True
    from "1.IH" [OF True] True show ?thesis
      by (subst (1 2) scanParens.simps) simp
  next
    case False
    then show ?thesis by (subst (1 2) scanParens.simps) auto
  qed
qed

lemma scanParens_count_bound:
  "snd (scanParens tokens st n) \<le> max n 0 + int (length tokens - tokenPos st)"
proof (induction tokens st n rule: scanParens.induct)
  case (1 tokens st parenCount)
  show ?case
  proof (cases "tokenPos st < length tokens \<and> parenCount > 0")
    case True
    from "1.IH" [OF True] True show ?thesis
      by (subst scanParens.simps) (auto split: if_splits)
  next
    case False
    then show ?thesis by (subst scanParens.simps) auto
  qed
qed

lemma scanParens_Pair_frame:
  "scanParens tokens st n = (st', m) \<Longrightarrow> symbolTable st' = symbolTable st \<and> errors st' = errors st"
  using scanParens_frame [of tokens st n] by simp

lemma realizationStep_Return:
  "realizationStep tokens st bs = Return r \<Longrightarrow>
   symbolTable r = symbolTable st \<and> (\<exists>d. errors r = errors st @ [d])"
  by (auto simp: realizationStep_def Let_def
      split: if_splits prod.splits dest!: scanParens_Pair_frame)

lemma realizationStep_Next:
  "realizationStep tokens st bs = Next (st', bs') \<Longrightarrow>
   symbolTable st' = symbolTable st \<and> errors st' = errors st"
  by (auto simp: realizationStep_def Let_def
      split: if_splits prod.splits dest!: scanParens_Pair_frame)

lemma realizationLoop_frame:
  "symbolTable (realizationLoop tokens st bs) = symbolTable st \<and>
   (\<exists>ds. errors (realizationLoop tokens st bs) = errors st @ ds \<and> length ds \<le> 1)"
proof (induction tokens st bs rule: realizationLoop.induct)
  case (1 tokens st blockStack)
  show ?case
  proof (cases "tokenPos st < length tokens \<and> curType tokens st \<noteq> KEYWORD_END")
    case False
    then show ?thesis
      by (auto simp: realizationLoop.simps [of tokens st blockStack])
  next
    case True
    show ?thesis
    proof (cases "realizationStep tokens st blockStack")
      case (Return r)
      with True realizationStep_Return [OF Return] show ?thesis
        by (auto simp: realizationLoop.simps [of tokens st blockStack])
    next
      case (Next p)
      obtain st' bs' where p: "p = (st', bs')" by (cases p)
      from "1.IH" [OF True Next [unfolded p] refl] realizationStep_Next [OF Next [unfolded p]]
      show ?thesis
        using True Next p by (auto simp: realizationLoop.simps [of tokens st blockStack])
    qed
  qed
qed

lemma commaLoop_errors:
  "commaLoop tokens st vars = Return r \<Longrightarrow> \<exists>d. errors r = errors st @ [d]"
  "commaLoop tokens st vars = Next (st', vars') \<Longrightarrow> errors st' = errors st"
proof (induction tokens st vars rule: commaLoop.induct)
  case (1 tokens st vars)
  let ?st1 = "advance st"
  let ?rec = "commaLoop tokens (advance ?st1) (vars @ [curValue tokens ?st1])"
  have unfold: "commaLoop tokens st vars =
     (if tokenPos st < length tokens \<and> curType tokens st = DELIMITER_COMMA then
        (if atEnd tokens ?st1 \<or> curType tokens ?st1 \<noteq> IDENTIFIER
         then Return (push_back ExpectedIdentifierAfterComma ?st1)
         else if curType tokens ?st1 = ERROR
         then Return (advance (push_back (InvalidIdentifier (curValue tokens ?st1)) ?st1))
         else ?rec)
      else Next (st, vars))"
    by (subst commaLoop.simps) (simp add: Let_def)
  {
    case 1
    show ?case
    proof (cases "tokenPos st < length tokens \<and> curType tokens st = DELIMITER_COMMA")
      case False
      with "1.prems" unfold show ?thesis by simp
    next
      case True
      show ?thesis
      proof (cases "atEnd tokens ?st1 \<or> curType tokens ?st1 \<noteq> IDENTIFIER")
        case bad: True
        with True "1.prems" unfold show ?thesis by auto
      next
        case ok: False
        then have ne: "\<not> curType tokens ?st1 = ERROR" by simp
        from True ok ne "1.prems" unfold have "?rec = Return r" by simp
        from "1.IH"(1) [OF True refl ok ne this] show ?thesis by simp
      qed
    qed
  next
    case 2
    show ?case
    proof (cases "tokenPos st < length tokens \<and> curType tokens st = DELIMITER_COMMA")
      case False
      with "2.prems" unfold show ?thesis by simp
    next
      case True
      show ?thesis
      proof (cases "atEnd tokens ?st1 \<or> curType tokens ?st1 \<noteq> IDENTIFIER")
        case bad: True
        with True "2.prems" unfold show ?thesis by auto
      next
        case ok: False
        then have ne: "\<not> curType tokens ?st1 = ERROR" by simp
        from True ok ne "2.prems" unfold have "?rec = Next (st', vars')" by simp
        from "1.IH"(2) [OF True refl ok ne this] show ?thesis by simp
      qed
    qed
  }
qed

lemma insertVars_errors:
  "insertVars vars varType st = Return r \<Longrightarrow> \<exists>d. errors r = errors st @ [d]"
  "insertVars vars varType st = Next st' \<Longrightarrow> errors st' = errors st"
  by (induction vars varType st rule: insertVars.induct) (auto split: if_splits)

lemma definitionStep_Return:
  "definitionStep tokens st = Return r \<Longrightarrow> \<exists>d. errors r = errors st @ [d]"
  by (auto simp: definitionStep_def Let_def
      split: if_splits step.splits prod.splits
      dest!: commaLoop_errors insertVars_errors)

lemma definitionStep_Next:
  "definitionStep tokens st = Next st' \<Longrightarrow> errors st' = errors st"
  by (auto simp: definitionStep_def Let_def
      split: if_splits step.splits prod.splits
      dest!: commaLoop_errors insertVars_errors)

lemma parseDefinitionBody_errors:
  "\<exists>ds. errors (parseDefinitionBody tokens st) = errors st @ ds \<and> length ds \<le> 1"
proof (induction tokens st rule: parseDefinitionBody.induct)
  case (1 tokens st)
  show ?case
  proof (cases "tokenPos st < length tokens \<and> curType tokens st \<noteq> KEYWORD_BEGIN")
    case False
    then show ?thesis
      by (auto simp: parseDefinitionBody.simps [of tokens st])
  next
    case True
    show ?thesis
    proof (cases "definitionStep tokens st")
      case (Return r)
      with True definitionStep_Return [OF Return] show ?thesis
        by (auto simp: parseDefinitionBody.simps [of tokens st])
    next
      case (Next st')
      from "1.IH" [OF True Next] definitionStep_Next [OF Next] True Next
      show ?thesis
        by (auto simp: parseDefinitionBody.simps [of tokens st])
    qed
  qed
qed

lemma parse_errors:
  assumes "errors st = []"
  shows "length (errors (parse tokens st)) \<le> 1"
proof -
  obtain ds where ds: "errors (parseDefinitionBody tokens (advance st)) = ds" "length ds \<le> 1"
    using parseDefinitionBody_errors [of tokens "advance st"] assms by auto
  obtain es where es:
    "errors (parseRealizationBody tokens (advance (parseDefinitionBody tokens (advance st)))) =
       ds @ es" "length es \<le> 1"
    using realizationLoop_frame [of tokens "advance (parseDefinitionBody tokens (advance st))" "[]"] ds
    by (auto simp: parseRealizationBody_def)
  show ?thesis
    using assms ds es by (auto simp: parse_def Let_def)
qed

subsection \<open>Progress of the scanning functions\<close>

lemma readIdentifierOrKeyword_bound:
  "pos \<le> length source \<Longrightarrow> snd (readIdentifierOrKeyword source pos) \<le> length source"
  using scanIdentifier_bound [of pos source "[]"]
  by (auto simp: readIdentifierOrKeyword_def split: prod.splits)

lemma readNumber_bound:
  "pos \<le> length source \<Longrightarrow> snd (readNumber source pos) \<le> length source"
  using scanDigits_bound [of pos source "[]"]
  by (auto simp: readNumber_def split: prod.splits)

lemma readOperator_bound:
  "pos < length source \<Longrightarrow> snd (readOperator source pos) \<le> length source"
  by (simp add: readOperator_def Let_def)

lemma tokenize_from_result:
  "snd (tokenize_from source pos tokens) = max pos (length source) \<and>
   length (fst (tokenize_from source pos tokens)) \<le> length tokens + (length source - pos)"
proof (induction source pos tokens rule: tokenize_from.induct)
  case (1 source pos tokens)
  let ?c = "source ! pos"
  show ?case
  proof (cases "pos < length source")
    case False
    then show ?thesis
      by (auto simp add: tokenize_from.simps [of source pos tokens] max_def)
  next
    case inside: True
    show ?thesis
    proof (cases "isspace ?c")
      case True
      from "1.IH"(1) [OF inside refl True] inside True show ?thesis
        by (auto simp add: tokenize_from.simps [of source pos tokens] max_def)
    next
      case nospace: False
      show ?thesis
      proof (cases "isalpha ?c")
        case True
        let ?r = "readIdentifierOrKeyword source pos"
        have "pos < snd ?r" "snd ?r \<le> length source"
          using inside True readIdentifierOrKeyword_advances readIdentifierOrKeyword_bound
          by auto
        with "1.IH"(2) [OF inside refl nospace True] inside nospace True show ?thesis
          by (auto simp add: tokenize_from.simps [of source pos tokens] max_def)
      next
        case noalpha: False
        show ?thesis
        proof (cases "isdigit ?c")
          case True
          let ?r = "readNumber source pos"
          have "pos < snd ?r" "snd ?r \<le> length source"
            using inside True readNumber_advances readNumber_bound by auto
          with "1.IH"(3) [OF inside refl nospace noalpha True] inside nospace noalpha True
          show ?thesis
            by (auto simp add: tokenize_from.simps [of source pos tokens] max_def)
        next
          case False
          let ?r = "readOperator source pos"
          have "pos < snd ?r" "snd ?r \<le> length source"
            using inside readOperator_advances readOperator_bound by auto
          with "1.IH"(4) [OF inside refl nospace noalpha False] inside nospace noalpha False
          show ?thesis
            by (auto simp add: tokenize_from.simps [of source pos tokens] max_def)
        qed
      qed
    qed
  qed
qed

subsection \<open>The condition scan follows the depth\<close>

lemma drop_eq_ConsD:
  assumes "drop n xs = y # ys"
  shows "n < length xs" and "xs ! n = y" and "drop (Suc n) xs = ys"
proof -
  from assms show n: "n < length xs" by (cases "n < length xs") auto
  from Cons_nth_drop_Suc [OF n] assms show "xs ! n = y" and "drop (Suc n) xs = ys" by auto
qed

lemma depth_Nil: "depth [] = 0"
  by (simp add: depth_def)

lemma depth_Cons:
  "depth (t # ts) =
     (if type_tok t = DELIMITER_LPAREN then 1
      else if type_tok t = DELIMITER_RPAREN then - 1 else 0) + depth ts"
  by (simp add: depth_def)

lemma depth_append: "depth (xs @ ys) = depth xs + depth ys"
  by (induction xs) (simp_all add: depth_Nil depth_Cons)

lemma scanParens_run:
  "drop (tokenPos st) tokens = ts @ rest \<Longrightarrow>
   (\<And>k. k < length ts \<Longrightarrow> 0 < n + depth (take k ts)) \<Longrightarrow>
   scanParens tokens st n =
     scanParens tokens (st\<lparr>tokenPos := tokenPos st + length ts\<rparr>) (n + depth ts)"
proof (induction ts arbitrary: st n)
  case Nil
  then show ?case by (simp add: depth_Nil)
next
  case (Cons t ts)
  let ?d = "if type_tok t = DELIMITER_LPAREN then 1
            else if type_tok t = DELIMITER_RPAREN then - 1 else (0::int)"
  from Cons.prems(1) have dr: "drop (tokenPos st) tokens = t # (ts @ rest)" by simp
  note here = drop_eq_ConsD [OF dr]
  from Cons.prems(2) [of 0] have pos: "0 < n" by (simp add: depth_Nil)
  have step: "scanParens tokens st n = scanParens tokens (advance st) (n + ?d)"
    using here pos by (subst scanParens.simps) simp
  have "scanParens tokens (advance st) (n + ?d) =
        scanParens tokens ((advance st)\<lparr>tokenPos := tokenPos (advance st) + length ts\<rparr>)
          ((n + ?d) + depth ts)"
  proof (rule Cons.IH)
    show "drop (tokenPos (advance st)) tokens = ts @ rest" using here(3) by simp
  next
    fix k assume "k < length ts"
    with Cons.prems(2) [of "Suc k"] show "0 < n + ?d + depth (take k ts)"
      by (simp add: depth_Cons)
  qed
  with step show ?case by (simp add: depth_Cons add.assoc)
qed

lemma scanParens_stop: "n \<le> 0 \<Longrightarrow> scanParens tokens st n = (st, n)"
  by (subst scanParens.simps) simp

lemma scanParens_end: "length tokens \<le> tokenPos st \<Longrightarrow> scanParens tokens st n = (st, n)"
  by (subst scanParens.simps) simp

lemma scanParens_balanced:
  assumes "drop (tokenPos st) tokens = cond @ rp # rest"
    and "balanced cond" and "type_tok rp = DELIMITER_RPAREN"
  shows "scanParens tokens st 1 = (st\<lparr>tokenPos := tokenPos st + length cond + 1\<rparr>, 0)"
proof -
  from assms(2) have d0: "depth cond = 0"
    and pre: "\<And>k. k < length cond \<Longrightarrow> 0 \<le> depth (take k cond)"
    by (simp_all add: balanced_def list_all_iff)
  have "scanParens tokens st 1 =
        scanParens tokens (st\<lparr>tokenPos := tokenPos st + length (cond @ [rp])\<rparr>)
          (1 + depth (cond @ [rp]))"
  proof (rule scanParens_run)
    show "drop (tokenPos st) tokens = (cond @ [rp]) @ rest" using assms(1) by simp
  next
    fix k assume k: "k < length (cond @ [rp])"
    show "0 < 1 + depth (take k (cond @ [rp]))"
    proof (cases "k < length cond")
      case True
      with pre [of k] show ?thesis by simp
    next
      case False
      with k have "k = length cond" by simp
      with d0 show ?thesis by simp
    qed
  qed
  also have "depth (cond @ [rp]) = - 1"
    using d0 assms(3) by (simp add: depth_append depth_Cons depth_Nil)
  finally show ?thesis by (simp add: scanParens_stop)
qed

lemma scanParens_neverCloses:
  assumes "drop (tokenPos st) tokens = ts" and "neverCloses ts"
  shows "scanParens tokens st 1 = (st\<lparr>tokenPos := tokenPos st + length ts\<rparr>, 1 + depth ts) \<and>
         0 < 1 + depth ts \<and> tokenPos st + length ts = max (tokenPos st) (length tokens)"
proof -
  have open_: "0 < 1 + depth (take k ts)" if "k \<le> length ts" for k
  proof (cases "k = length ts")
    case True
    with assms(2) show ?thesis by (simp add: neverCloses_def list_all_iff)
  next
    case False
    with that assms(2) show ?thesis by (simp add: neverCloses_def list_all_iff)
  qed
  have len: "tokenPos st + length ts = max (tokenPos st) (length tokens)"
    using assms(1) by (auto simp: max_def)
  have "scanParens tokens st 1 =
        scanParens tokens (st\<lparr>tokenPos := tokenPos st + length ts\<rparr>) (1 + depth ts)"
    by (rule scanParens_run [where rest = "[]"]) (use assms(1) open_ in auto)
  also have "\<dots> = (st\<lparr>tokenPos := tokenPos st + length ts\<rparr>, 1 + depth ts)"
    using len by (intro scanParens_end) simp
  finally show ?thesis using open_ [of "length ts"] len by simp
qed

lemma realizationLoop_step:
  "tokenPos st < length tokens \<Longrightarrow> curType tokens st \<noteq> KEYWORD_END \<Longrightarrow>
   realizationLoop tokens st blockStack =
     (case realizationStep tokens st blockStack of
        Return r \<Rightarrow> r
      | Next (st', blockStack') \<Rightarrow> realizationLoop tokens st' blockStack')"
  by (subst realizationLoop.simps) simp

lemma drop_after_run:
  assumes "drop n xs = ys @ rest"
  shows "drop (n + length ys) xs = rest"
    and "rest = [] \<longleftrightarrow> length xs \<le> n + length ys"
    and "rest \<noteq> [] \<Longrightarrow> xs ! (n + length ys) = hd rest"
proof -
  have "drop (n + length ys) xs = drop (length ys) (drop n xs)"
    by (simp add: add.commute)
  with assms show d: "drop (n + length ys) xs = rest" by simp
  then show "rest = [] \<longleftrightarrow> length xs \<le> n + length ys" by auto
  assume "rest \<noteq> []"
  with d show "xs ! (n + length ys) = hd rest"
    by (metis drop_eq_Nil hd_drop_conv_nth not_le)
qed

lemma while_if_no_paren:
  assumes "tokenPos st < length tokens"
    and "drop (tokenPos st + 1) tokens = [] \<or>
         type_tok (hd (drop (tokenPos st + 1) tokens)) \<noteq> DELIMITER_LPAREN"
  shows "curType tokens st = KEYWORD_WHILE \<Longrightarrow>
           realizationStep tokens st blockStack =
             Return (push_back MissingLParenAfterWhile (advance st))"
    and "curType tokens st = KEYWORD_IF \<Longrightarrow>
           realizationStep tokens st blockStack =
             Return (push_back MissingLParenAfterIf (advance st))"
proof -
  have "atEnd tokens (advance st) \<or> curType tokens (advance st) \<noteq> DELIMITER_LPAREN"
  proof (cases "drop (tokenPos st + 1) tokens = []")
    case True
    then show ?thesis by simp
  next
    case False
    then have "hd (drop (tokenPos st + 1) tokens) = tokens ! (tokenPos st + 1)"
      by (simp add: hd_drop_conv_nth)
    with False assms(2) show ?thesis by simp
  qed
  then show "curType tokens st = KEYWORD_WHILE \<Longrightarrow>
           realizationStep tokens st blockStack =
             Return (push_back MissingLParenAfterWhile (advance st))"
    and "curType tokens st = KEYWORD_IF \<Longrightarrow>
           realizationStep tokens st blockStack =
             Return (push_back MissingLParenAfterIf (advance st))"
    by (auto simp: realizationStep_def Let_def)
qed

lemma while_if_unbalanced:
  assumes "drop (tokenPos st + 1) tokens = lp # ts"
    and "type_tok lp = DELIMITER_LPAREN" and "neverCloses ts"
  shows "curType tokens st = KEYWORD_WHILE \<Longrightarrow>
           realizationStep tokens st blockStack =
             Return (push_back UnbalancedWhileCondition (st\<lparr>tokenPos := length tokens\<rparr>))"
    and "curType tokens st = KEYWORD_IF \<Longrightarrow>
           realizationStep tokens st blockStack =
             Return (push_back UnbalancedIfCondition (st\<lparr>tokenPos := length tokens\<rparr>))"
proof -
  from assms(1) have dr: "drop (Suc (tokenPos st)) tokens = lp # ts" by simp
  note here = drop_eq_ConsD [OF dr]
  let ?st2 = "advance (advance st)"
  have "drop (tokenPos ?st2) tokens = ts" using here(3) by simp
  from scanParens_neverCloses [OF this assms(3)] here(1)
  have scan: "scanParens tokens ?st2 1 = (st\<lparr>tokenPos := length tokens\<rparr>, 1 + depth ts)"
    and open_: "0 < 1 + depth ts"
    by (simp_all add: max_def)
  from scan open_ here assms(2)
  show "curType tokens st = KEYWORD_WHILE \<Longrightarrow>
           realizationStep tokens st blockStack =
             Return (push_back UnbalancedWhileCondition (st\<lparr>tokenPos := length tokens\<rparr>))"
    and "curType tokens st = KEYWORD_IF \<Longrightarrow>
           realizationStep tokens st blockStack =
             Return (push_back UnbalancedIfCondition (st\<lparr>tokenPos := length tokens\<rparr>))"
    by (simp_all add: realizationStep_def Let_def)
qed

lemma while_if_balanced:
  assumes "drop (tokenPos st + 1) tokens = lp # cond @ rp # rest"
    and "type_tok lp = DELIMITER_LPAREN" and "balanced cond"
    and "type_tok rp = DELIMITER_RPAREN"
  shows "curType tokens st = KEYWORD_WHILE \<Longrightarrow>
           realizationStep tokens st blockStack =
             (if rest \<noteq> [] \<and> type_tok (hd rest) = KEYWORD_DO
              then Next (st\<lparr>tokenPos := tokenPos st + length cond + 4\<rparr>, blockStack @ [''while''])
              else Return (push_back MissingDoAfterWhile
                             (st\<lparr>tokenPos := tokenPos st + length cond + 3\<rparr>)))"
    and "curType tokens st = KEYWORD_IF \<Longrightarrow>
           realizationStep tokens st blockStack =
             (if rest \<noteq> [] \<and> type_tok (hd rest) = KEYWORD_THEN
              then Next (st\<lparr>tokenPos := tokenPos st + length cond + 4\<rparr>, blockStack @ [''if''])
              else Return (push_back MissingThenAfterIf
                             (st\<lparr>tokenPos := tokenPos st + length cond + 3\<rparr>)))"
proof -
  from assms(1) have dr: "drop (Suc (tokenPos st)) tokens = lp # (cond @ rp # rest)" by simp
  note here = drop_eq_ConsD [OF dr]
  let ?st2 = "advance (advance st)"
  have dr2: "drop (tokenPos ?st2) tokens = cond @ rp # rest" using here(3) by simp
  from scanParens_balanced [OF dr2 assms(3,4)]
  have scan: "scanParens tokens ?st2 1 = (st\<lparr>tokenPos := tokenPos st + length cond + 3\<rparr>, 0)"
    by simp
  from here(3) have "drop (Suc (Suc (tokenPos st))) tokens = (cond @ [rp]) @ rest" by simp
  note after = drop_after_run [OF this]
  have p: "Suc (Suc (tokenPos st)) + length (cond @ [rp]) = tokenPos st + length cond + 3"
    by simp
  have end_: "rest = [] \<longleftrightarrow> length tokens \<le> tokenPos st + length cond + 3"
    using after(2) unfolding p .
  have cur: "rest \<noteq> [] \<Longrightarrow> tokens ! (tokenPos st + length cond + 3) = hd rest"
    using after(3) unfolding p .
  from scan end_ cur here assms(2)
  show "curType tokens st = KEYWORD_WHILE \<Longrightarrow>
           realizationStep tokens st blockStack =
             (if rest \<noteq> [] \<and> type_tok (hd rest) = KEYWORD_DO
              then Next (st\<lparr>tokenPos := tokenPos st + length cond + 4\<rparr>, blockStack @ [''while''])
              else Return (push_back MissingDoAfterWhile
                             (st\<lparr>tokenPos := tokenPos st + length cond + 3\<rparr>)))"
    and "curType tokens st = KEYWORD_IF \<Longrightarrow>
           realizationStep tokens st blockStack =
             (if rest \<noteq> [] \<and> type_tok (hd rest) = KEYWORD_THEN
              then Next (st\<lparr>tokenPos := tokenPos st + length cond + 4\<rparr>, blockStack @ [''if''])
              else Return (push_back MissingThenAfterIf
                             (st\<lparr>tokenPos := tokenPos st + length cond + 3\<rparr>)))"
    by (auto simp: realizationStep_def Let_def)
qed

subsection \<open>A declaration group with a repeated name\<close>

lemma commaLoop_pairs:
  "commaPairs ps vs \<Longrightarrow> drop (tokenPos st) tokens = ps @ nxt # rest \<Longrightarrow>
   type_tok nxt \<noteq> DELIMITER_COMMA \<Longrightarrow>
   commaLoop tokens st acc = Next (st\<lparr>tokenPos := tokenPos st + length ps\<rparr>, acc @ vs)"
proof (induction ps vs arbitrary: st acc rule: commaPairs.induct)
  case 1
  then have dr: "drop (tokenPos st) tokens = nxt # rest" by simp
  from drop_eq_ConsD [OF dr] "1.prems"(3) show ?case
    by (subst commaLoop.simps) simp
next
  case (2 c t ts v vs)
  from "2.prems"(1) have c: "type_tok c = DELIMITER_COMMA" and t: "type_tok t = IDENTIFIER"
    and v: "value_tok t = v" and rec: "commaPairs ts vs" by simp_all
  from "2.prems"(2) have dr: "drop (tokenPos st) tokens = c # (t # ts @ nxt # rest)" by simp
  note here = drop_eq_ConsD [OF dr]
  note next_ = drop_eq_ConsD [OF here(3)]
  have "commaLoop tokens st acc = commaLoop tokens (advance (advance st)) (acc @ [v])"
    using here next_ c t v by (subst commaLoop.simps) (simp add: Let_def)
  also have "\<dots> = Next ((advance (advance st))\<lparr>tokenPos := tokenPos (advance (advance st)) + length ts\<rparr>,
                        (acc @ [v]) @ vs)"
    using next_(3) "2.prems"(3) by (intro "2.IH" [OF rec]) simp_all
  finally show ?case by simp
qed simp_all

lemma insertVars_repeated:
  "distinct pre \<Longrightarrow> \<forall>v \<in> set pre. symbolTable st v = None \<Longrightarrow>
   symbolTable st d \<noteq> None \<or> d \<in> set pre \<Longrightarrow>
   insertVars (pre @ d # post) varType st =
     Return (push_back (RepeatedDefinition d)
       (st\<lparr>symbolTable := \<lambda>v. if v \<in> set pre then Some varType else symbolTable st v\<rparr>))"
proof (induction pre arbitrary: st)
  case Nil
  then show ?case by simp
next
  case (Cons a pre)
  let ?st = "st\<lparr>symbolTable := (symbolTable st)(a \<mapsto> varType)\<rparr>"
  from Cons.prems have fresh: "symbolTable st a = None" by simp
  have "insertVars (pre @ d # post) varType ?st =
     Return (push_back (RepeatedDefinition d)
       (?st\<lparr>symbolTable := \<lambda>v. if v \<in> set pre then Some varType else symbolTable ?st v\<rparr>))"
  proof (rule Cons.IH)
    show "distinct pre" using Cons.prems(1) by simp
    show "\<forall>v \<in> set pre. symbolTable ?st v = None" using Cons.prems(1,2) by auto
    show "symbolTable ?st d \<noteq> None \<or> d \<in> set pre" using Cons.prems(3) by auto
  qed
  moreover have "(\<lambda>v. if v \<in> set pre then Some varType else symbolTable ?st v) =
                 (\<lambda>v. if v \<in> set (a # pre) then Some varType else symbolTable st v)"
    by (rule ext) simp
  ultimately show ?case using fresh by simp
qed

lemma parseDefinitionBody_step:
  "tokenPos st < length tokens \<Longrightarrow> curType tokens st \<noteq> KEYWORD_BEGIN \<Longrightarrow>
   parseDefinitionBody tokens st =
     (case definitionStep tokens st of
        Return r \<Rightarrow> r
      | Next st' \<Rightarrow> parseDefinitionBody tokens st')"
  by (subst parseDefinitionBody.simps) simp

subsection \<open>A run reads no token behind its final position\<close>

lemma agreeUpTo_nth:
  assumes "agreeUpTo p tokens tokens'" and "i \<le> p"
  shows "tokens' ! i = tokens ! i" and "i < length tokens'" and "i < length tokens"
proof -
  from assms have "take (Suc p) tokens ! i = take (Suc p) tokens' ! i"
    by (simp add: agreeUpTo_def)
  with assms(2) show "tokens' ! i = tokens ! i" by simp
  from assms show "i < length tokens'" and "i < length tokens"
    by (simp_all add: agreeUpTo_def)
qed

lemma agreeUpTo_extend:
  "p < length tokens \<Longrightarrow> agreeUpTo p tokens (take (Suc p) tokens @ trailing)"
  by (simp add: agreeUpTo_def)

lemma scanParens_agree:
  "agreeUpTo p tokens tokens' \<Longrightarrow> scanParens tokens st n = (st', m) \<Longrightarrow> tokenPos st' \<le> p \<Longrightarrow>
   scanParens tokens' st n = (st', m)"
proof (induction tokens st n rule: scanParens.induct)
  case (1 tokens st parenCount)
  note ag = agreeUpTo_nth [OF "1.prems"(1)]
  show ?case
  proof (cases "tokenPos st < length tokens \<and> parenCount > 0")
    case True
    let ?n = "if curType tokens st = DELIMITER_LPAREN then parenCount + 1
              else if curType tokens st = DELIMITER_RPAREN then parenCount - 1
              else parenCount"
    from True "1.prems"(2) have rec: "scanParens tokens (advance st) ?n = (st', m)"
      by (simp add: scanParens.simps [of tokens st parenCount])
    from scanParens_Pair_pos [OF rec] "1.prems"(3) have le: "tokenPos st < p" by simp
    from "1.IH" [OF True "1.prems"(1) rec "1.prems"(3)]
    have "scanParens tokens' (advance st) ?n = (st', m)" .
    with True le ag [of "tokenPos st"] show ?thesis
      by (auto simp: scanParens.simps [of tokens' st parenCount] split: if_splits)
  next
    case False
    with "1.prems"(2) have same: "st' = st" "m = parenCount"
      by (simp_all add: scanParens.simps [of tokens st parenCount])
    with "1.prems"(3) ag [of "tokenPos st"] False show ?thesis
      by (simp add: scanParens.simps [of tokens' st parenCount])
  qed
qed

lemma commaLoop_agree:
  "agreeUpTo p tokens tokens' \<Longrightarrow> commaLoop tokens st vars = Next (st', vars') \<Longrightarrow>
   tokenPos st' \<le> p \<Longrightarrow> commaLoop tokens' st vars = Next (st', vars')"
proof (induction tokens st vars rule: commaLoop.induct)
  case (1 tokens st vars)
  note ag = agreeUpTo_nth [OF "1.prems"(1)]
  show ?case
  proof (cases "tokenPos st < length tokens \<and> curType tokens st = DELIMITER_COMMA")
    case False
    with "1.prems"(2) have same: "st' = st" "vars' = vars"
      by (simp_all add: commaLoop.simps [of tokens st vars])
    with "1.prems"(3) ag [of "tokenPos st"] False show ?thesis
      by (simp add: commaLoop.simps [of tokens' st vars])
  next
    case True
    let ?st1 = "advance st"
    from True "1.prems"(2)
    have ok: "\<not> (atEnd tokens ?st1 \<or> curType tokens ?st1 \<noteq> IDENTIFIER)"
      and ne: "\<not> curType tokens ?st1 = ERROR"
      and rec: "commaLoop tokens (advance ?st1) (vars @ [curValue tokens ?st1]) = Next (st', vars')"
      by (auto simp: commaLoop.simps [of tokens st vars] Let_def split: if_splits)
    from commaLoop_Next_pos [OF rec] "1.prems"(3) have le: "Suc (Suc (tokenPos st)) \<le> p" by simp
    from "1.IH" [OF True refl ok ne "1.prems"(1) rec "1.prems"(3)]
    have "commaLoop tokens' (advance ?st1) (vars @ [curValue tokens ?st1]) = Next (st', vars')" .
    with True ok ne le ag [of "tokenPos st"] ag [of "Suc (tokenPos st)"] show ?thesis
      by (simp add: commaLoop.simps [of tokens' st vars] Let_def)
  qed
qed

lemma definitionStep_agree:
  assumes ag: "agreeUpTo p tokens tokens'"
    and step: "definitionStep tokens st = Next st'"
    and le: "tokenPos st' \<le> p"
  shows "definitionStep tokens' st = Next st'"
proof -
  from step have "\<exists>st2 vars st5.
      curType tokens st = IDENTIFIER \<and>
      commaLoop tokens (advance st) [curValue tokens st] = Next (st2, vars) \<and>
      \<not> (tokenPos st2 < length tokens \<and> curType tokens st2 = IDENTIFIER) \<and>
      \<not> (atEnd tokens st2 \<or> curType tokens st2 \<noteq> DELIMITER_COLON) \<and>
      \<not> (atEnd tokens (advance st2) \<or>
         toLower (curValue tokens (advance st2)) \<notin> set types_set) \<and>
      insertVars vars (toLower (curValue tokens (advance st2))) (advance (advance st2)) = Next st5 \<and>
      \<not> (atEnd tokens st5 \<or> curType tokens st5 \<noteq> DELIMITER_SEMICOLON) \<and>
      st' = advance st5"
    by (auto simp: definitionStep_def Let_def split: if_splits step.splits prod.splits)
  then obtain st2 vars st5 where
    ty0: "curType tokens st = IDENTIFIER"
    and cl: "commaLoop tokens (advance st) [curValue tokens st] = Next (st2, vars)"
    and nid: "\<not> (tokenPos st2 < length tokens \<and> curType tokens st2 = IDENTIFIER)"
    and col: "\<not> (atEnd tokens st2 \<or> curType tokens st2 \<noteq> DELIMITER_COLON)"
    and tyk: "\<not> (atEnd tokens (advance st2) \<or>
         toLower (curValue tokens (advance st2)) \<notin> set types_set)"
    and ins: "insertVars vars (toLower (curValue tokens (advance st2))) (advance (advance st2))
                = Next st5"
    and semi: "\<not> (atEnd tokens st5 \<or> curType tokens st5 \<noteq> DELIMITER_SEMICOLON)"
    and fin: "st' = advance st5"
    by blast
  from insertVars_Next_pos [OF ins] have p5: "tokenPos st5 = Suc (Suc (tokenPos st2))" by simp
  from commaLoop_Next_pos [OF cl] have p2: "Suc (tokenPos st) \<le> tokenPos st2" by simp
  from le fin p5 have b2: "Suc (Suc (Suc (tokenPos st2))) \<le> p" by simp
  note r = agreeUpTo_nth [OF ag]
  have r0: "tokens' ! tokenPos st = tokens ! tokenPos st"
    using r(1) [of "tokenPos st"] p2 b2 by simp
  have r2: "tokens' ! tokenPos st2 = tokens ! tokenPos st2" "tokenPos st2 < length tokens'"
    using r(1,2) [of "tokenPos st2"] b2 by simp_all
  have r3: "tokens' ! Suc (tokenPos st2) = tokens ! Suc (tokenPos st2)"
    "Suc (tokenPos st2) < length tokens'"
    using r(1,2) [of "Suc (tokenPos st2)"] b2 by simp_all
  have r5: "tokens' ! tokenPos st5 = tokens ! tokenPos st5" "tokenPos st5 < length tokens'"
    using r(1,2) [of "tokenPos st5"] b2 p5 by simp_all
  have cl': "commaLoop tokens' (advance st) [curValue tokens st] = Next (st2, vars)"
    using commaLoop_agree [OF ag cl] b2 by simp
  show ?thesis
    using ty0 cl' nid col tyk ins semi fin r2 r3 r5
    by (auto simp: definitionStep_def Let_def r0)
qed

lemma realizationStep_agree:
  assumes ag: "agreeUpTo p tokens tokens'"
    and step: "realizationStep tokens st blockStack = Next (st', blockStack')"
    and le: "tokenPos st' \<le> p"
  shows "realizationStep tokens' st blockStack = Next (st', blockStack')"
proof -
  note r = agreeUpTo_nth [OF ag]
  from realizationStep_Next_pos [OF step] le have lt: "tokenPos st < p" by simp
  have r0: "tokens' ! tokenPos st = tokens ! tokenPos st"
    and r1: "tokens' ! Suc (tokenPos st) = tokens ! Suc (tokenPos st)"
      "Suc (tokenPos st) < length tokens'" "Suc (tokenPos st) < length tokens"
    using r [of "tokenPos st"] r [of "Suc (tokenPos st)"] lt by simp_all
  consider (ident) "curType tokens st = IDENTIFIER"
    | (while) "curType tokens st = KEYWORD_WHILE"
    | (if_) "curType tokens st = KEYWORD_IF"
    | (begin_) "curType tokens st = KEYWORD_BEGIN"
    | (end_) "curType tokens st = KEYWORD_END"
    | (else_) "curType tokens st = KEYWORD_ELSE"
    | (other) "curType tokens st \<notin> {IDENTIFIER, KEYWORD_WHILE, KEYWORD_IF, KEYWORD_BEGIN,
                 KEYWORD_END, KEYWORD_ELSE}"
    by blast
  then show ?thesis
  proof cases
    case ident
    let ?s1 = "advance st"
    let ?s2 = "advance ?s1"
    let ?s3 = "advance ?s2"
    from step ident have known: "symbolTable st (curValue tokens st) \<noteq> None"
      and a1: "\<not> (atEnd tokens ?s1 \<or> curType tokens ?s1 \<noteq> OPERATOR_ASSIGN)"
      and a2: "\<not> (atEnd tokens ?s2 \<or>
                 (curType tokens ?s2 \<noteq> NUMBER \<and> curType tokens ?s2 \<noteq> IDENTIFIER))"
      and a2': "\<not> (curType tokens ?s2 = IDENTIFIER \<and> symbolTable ?s2 (curValue tokens ?s2) = None)"
      and a3: "\<not> (atEnd tokens ?s3 \<or> curType tokens ?s3 \<noteq> DELIMITER_SEMICOLON)"
      and fin: "st' = advance ?s3" "blockStack' = blockStack"
      by (auto simp: realizationStep_def Let_def split: if_splits)
    from fin le have b: "tokenPos st + 4 \<le> p" by simp
    have r2: "tokens' ! Suc (Suc (tokenPos st)) = tokens ! Suc (Suc (tokenPos st))"
      "Suc (Suc (tokenPos st)) < length tokens'"
      using r [of "Suc (Suc (tokenPos st))"] b by simp_all
    have r3: "tokens' ! Suc (Suc (Suc (tokenPos st))) = tokens ! Suc (Suc (Suc (tokenPos st)))"
      "Suc (Suc (Suc (tokenPos st))) < length tokens'"
      using r [of "Suc (Suc (Suc (tokenPos st)))"] b by simp_all
    from ident known a1 a2 a2' a3 fin r1 r2 r3 show ?thesis
      by (auto simp: realizationStep_def Let_def r0)
  next
    case while
    let ?s1 = "advance st"
    from step while obtain st2 n where
      scan: "scanParens tokens (advance ?s1) 1 = (st2, n)"
      and lp: "\<not> (atEnd tokens ?s1 \<or> curType tokens ?s1 \<noteq> DELIMITER_LPAREN)"
      and closed: "\<not> n > 0"
      and kw: "\<not> (atEnd tokens st2 \<or> curType tokens st2 \<noteq> KEYWORD_DO)"
      and fin: "st' = advance st2" "blockStack' = blockStack @ [''while'']"
      by (auto simp: realizationStep_def Let_def split: if_splits prod.splits)
    from fin le have b: "Suc (tokenPos st2) \<le> p" by simp
    have r2: "tokens' ! tokenPos st2 = tokens ! tokenPos st2" "tokenPos st2 < length tokens'"
      using r [of "tokenPos st2"] b by simp_all
    from scanParens_agree [OF ag scan] b
    have "scanParens tokens' (advance ?s1) 1 = (st2, n)" by simp
    with while lp closed kw fin r1 r2 show ?thesis
      by (auto simp: realizationStep_def Let_def r0)
  next
    case if_
    let ?s1 = "advance st"
    from step if_ obtain st2 n where
      scan: "scanParens tokens (advance ?s1) 1 = (st2, n)"
      and lp: "\<not> (atEnd tokens ?s1 \<or> curType tokens ?s1 \<noteq> DELIMITER_LPAREN)"
      and closed: "\<not> n > 0"
      and kw: "\<not> (atEnd tokens st2 \<or> curType tokens st2 \<noteq> KEYWORD_THEN)"
      and fin: "st' = advance st2" "blockStack' = blockStack @ [''if'']"
      by (auto simp: realizationStep_def Let_def split: if_splits prod.splits)
    from fin le have b: "Suc (tokenPos st2) \<le> p" by simp
    have r2: "tokens' ! tokenPos st2 = tokens ! tokenPos st2" "tokenPos st2 < length tokens'"
      using r [of "tokenPos st2"] b by simp_all
    from scanParens_agree [OF ag scan] b
    have "scanParens tokens' (advance ?s1) 1 = (st2, n)" by simp
    with if_ lp closed kw fin r1 r2 show ?thesis
      by (auto simp: realizationStep_def Let_def r0)
  next
    case begin_
    with step show ?thesis by (auto simp: realizationStep_def r0 split: if_splits)
  next
    case end_
    with step r1 show ?thesis
      by (auto simp: realizationStep_def Let_def r0 split: if_splits)
  next
    case else_
    with step show ?thesis by (auto simp: realizationStep_def r0 split: if_splits)
  next
    case other
    with step show ?thesis by (auto simp: realizationStep_def r0 split: if_splits)
  qed
qed

lemma parseDefinitionBody_success_pos:
  "errors (parseDefinitionBody tokens st) = errors st \<Longrightarrow>
   tokenPos st \<le> tokenPos (parseDefinitionBody tokens st)"
proof (induction tokens st rule: parseDefinitionBody.induct)
  case (1 tokens st)
  show ?case
  proof (cases "tokenPos st < length tokens \<and> curType tokens st \<noteq> KEYWORD_BEGIN")
    case False
    then show ?thesis by (auto simp: parseDefinitionBody.simps [of tokens st])
  next
    case True
    show ?thesis
    proof (cases "definitionStep tokens st")
      case (Return r)
      with True "1.prems" definitionStep_Return [OF Return] show ?thesis
        by (auto simp: parseDefinitionBody.simps [of tokens st])
    next
      case (Next st1)
      from True Next have eq: "parseDefinitionBody tokens st = parseDefinitionBody tokens st1"
        by (simp add: parseDefinitionBody.simps [of tokens st])
      from "1.prems" eq definitionStep_Next [OF Next]
      have "errors (parseDefinitionBody tokens st1) = errors st1" by simp
      from "1.IH" [OF True Next this] definitionStep_Next_pos [OF Next] eq
      show ?thesis by simp
    qed
  qed
qed

lemma parseDefinitionBody_agree:
  "agreeUpTo p tokens tokens' \<Longrightarrow>
   errors (parseDefinitionBody tokens st) = errors st \<Longrightarrow>
   tokenPos (parseDefinitionBody tokens st) \<le> p \<Longrightarrow>
   parseDefinitionBody tokens' st = parseDefinitionBody tokens st"
proof (induction tokens st rule: parseDefinitionBody.induct)
  case (1 tokens st)
  note r = agreeUpTo_nth [OF "1.prems"(1)]
  show ?case
  proof (cases "tokenPos st < length tokens \<and> curType tokens st \<noteq> KEYWORD_BEGIN")
    case False
    then have same: "parseDefinitionBody tokens st = st"
      by (auto simp: parseDefinitionBody.simps [of tokens st])
    with "1.prems"(3) have "tokenPos st \<le> p" by simp
    with r [of "tokenPos st"] False same show ?thesis
      by (auto simp: parseDefinitionBody.simps [of tokens' st])
  next
    case True
    show ?thesis
    proof (cases "definitionStep tokens st")
      case (Return ret)
      with True "1.prems"(2) definitionStep_Return [OF Return] show ?thesis
        by (auto simp: parseDefinitionBody.simps [of tokens st])
    next
      case (Next st1)
      from True Next have eq: "parseDefinitionBody tokens st = parseDefinitionBody tokens st1"
        by (simp add: parseDefinitionBody.simps [of tokens st])
      from "1.prems"(2) eq definitionStep_Next [OF Next]
      have ok: "errors (parseDefinitionBody tokens st1) = errors st1" by simp
      from "1.prems"(3) eq have fin: "tokenPos (parseDefinitionBody tokens st1) \<le> p" by simp
      from parseDefinitionBody_success_pos [OF ok] fin have b1: "tokenPos st1 \<le> p" by simp
      with definitionStep_Next_pos [OF Next] have b0: "tokenPos st \<le> p" by simp
      from definitionStep_agree [OF "1.prems"(1) Next b1]
      have step': "definitionStep tokens' st = Next st1" .
      from "1.IH" [OF True Next "1.prems"(1) ok fin]
      have "parseDefinitionBody tokens' st1 = parseDefinitionBody tokens st1" .
      with step' eq True r [of "tokenPos st"] b0 show ?thesis
        by (simp add: parseDefinitionBody.simps [of tokens' st])
    qed
  qed
qed

lemma realizationLoop_success_pos:
  "errors (realizationLoop tokens st blockStack) = errors st \<Longrightarrow>
   tokenPos st \<le> tokenPos (realizationLoop tokens st blockStack)"
proof (induction tokens st blockStack rule: realizationLoop.induct)
  case (1 tokens st blockStack)
  show ?case
  proof (cases "tokenPos st < length tokens \<and> curType tokens st \<noteq> KEYWORD_END")
    case False
    then show ?thesis by (auto simp: realizationLoop.simps [of tokens st blockStack])
  next
    case True
    show ?thesis
    proof (cases "realizationStep tokens st blockStack")
      case (Return r)
      with True "1.prems" realizationStep_Return [OF Return] show ?thesis
        by (auto simp: realizationLoop.simps [of tokens st blockStack])
    next
      case (Next q)
      obtain st1 bs1 where q: "q = (st1, bs1)" by (cases q)
      note step = Next [unfolded q]
      from True step
      have eq: "realizationLoop tokens st blockStack = realizationLoop tokens st1 bs1"
        by (simp add: realizationLoop.simps [of tokens st blockStack])
      from "1.prems" eq realizationStep_Next [OF step]
      have "errors (realizationLoop tokens st1 bs1) = errors st1" by simp
      from "1.IH" [OF True step refl this] realizationStep_Next_pos [OF step] eq
      show ?thesis by simp
    qed
  qed
qed

lemma realizationLoop_agree:
  "agreeUpTo p tokens tokens' \<Longrightarrow>
   errors (realizationLoop tokens st blockStack) = errors st \<Longrightarrow>
   tokenPos (realizationLoop tokens st blockStack) \<le> p \<Longrightarrow>
   realizationLoop tokens' st blockStack = realizationLoop tokens st blockStack"
proof (induction tokens st blockStack rule: realizationLoop.induct)
  case (1 tokens st blockStack)
  note r = agreeUpTo_nth [OF "1.prems"(1)]
  show ?case
  proof (cases "tokenPos st < length tokens \<and> curType tokens st \<noteq> KEYWORD_END")
    case False
    then have same: "realizationLoop tokens st blockStack =
        (if blockStack \<noteq> [] then push_back (MissingEndToMatch (last blockStack)) st else st)"
      by (auto simp: realizationLoop.simps [of tokens st blockStack])
    with "1.prems"(3) have "tokenPos st \<le> p" by (simp split: if_splits)
    with r [of "tokenPos st"] False same show ?thesis
      by (auto simp: realizationLoop.simps [of tokens' st blockStack])
  next
    case True
    show ?thesis
    proof (cases "realizationStep tokens st blockStack")
      case (Return ret)
      with True "1.prems"(2) realizationStep_Return [OF Return] show ?thesis
        by (auto simp: realizationLoop.simps [of tokens st blockStack])
    next
      case (Next q)
      obtain st1 bs1 where q: "q = (st1, bs1)" by (cases q)
      note step = Next [unfolded q]
      from True step
      have eq: "realizationLoop tokens st blockStack = realizationLoop tokens st1 bs1"
        by (simp add: realizationLoop.simps [of tokens st blockStack])
      from "1.prems"(2) eq realizationStep_Next [OF step]
      have ok: "errors (realizationLoop tokens st1 bs1) = errors st1" by simp
      from "1.prems"(3) eq have fin: "tokenPos (realizationLoop tokens st1 bs1) \<le> p" by simp
      from realizationLoop_success_pos [OF ok] fin have b1: "tokenPos st1 \<le> p" by simp
      with realizationStep_Next_pos [OF step] have b0: "tokenPos st \<le> p" by simp
      from realizationStep_agree [OF "1.prems"(1) step b1]
      have step': "realizationStep tokens' st blockStack = Next (st1, bs1)" .
      from "1.IH" [OF True step refl "1.prems"(1) ok fin]
      have "realizationLoop tokens' st1 bs1 = realizationLoop tokens st1 bs1" .
      with step' eq True r [of "tokenPos st"] b0 show ?thesis
        by (simp add: realizationLoop.simps [of tokens' st blockStack])
    qed
  qed
qed

lemma parse_agree:
  assumes clean: "errors st = []" and ok: "errors (parse tokens st) = []"
  shows "tokenPos (parse tokens st) < length tokens"
    and "curType tokens (parse tokens st) = KEYWORD_END"
    and "agreeUpTo (tokenPos (parse tokens st)) tokens tokens' \<Longrightarrow>
         parse tokens' st = parse tokens st"
proof -
  let ?st2 = "parseDefinitionBody tokens (advance st)"
  let ?st4 = "parseRealizationBody tokens (advance ?st2)"
  from ok have var: "\<not> (atEnd tokens st \<or> curType tokens st \<noteq> KEYWORD_VAR)"
    by (auto simp: parse_def split: if_splits)
  with ok have e2: "errors ?st2 = []"
    and beg: "\<not> (atEnd tokens ?st2 \<or> curType tokens ?st2 \<noteq> KEYWORD_BEGIN)"
    by (auto simp: parse_def Let_def split: if_splits)
  with var ok have res: "parse tokens st = ?st4"
    and e4: "errors ?st4 = []"
    and fin: "\<not> (atEnd tokens ?st4 \<or> curType tokens ?st4 \<noteq> KEYWORD_END)"
    by (auto simp: parse_def Let_def split: if_splits)
  from fin res show "tokenPos (parse tokens st) < length tokens"
    and "curType tokens (parse tokens st) = KEYWORD_END" by simp_all
  assume "agreeUpTo (tokenPos (parse tokens st)) tokens tokens'"
  with res have ag: "agreeUpTo (tokenPos ?st4) tokens tokens'" by simp
  note r = agreeUpTo_nth [OF ag]
  have ok2: "errors ?st2 = errors (advance st)" using e2 clean by simp
  have ok4: "errors (realizationLoop tokens (advance ?st2) []) = errors (advance ?st2)"
    using e4 e2 by (simp add: parseRealizationBody_def)
  from realizationLoop_success_pos [OF ok4]
  have p24: "Suc (tokenPos ?st2) \<le> tokenPos ?st4" by (simp add: parseRealizationBody_def)
  from parseDefinitionBody_success_pos [OF ok2]
  have p02: "Suc (tokenPos st) \<le> tokenPos ?st2" by simp
  have d: "parseDefinitionBody tokens' (advance st) = ?st2"
    using p24 by (intro parseDefinitionBody_agree [OF ag ok2]) simp
  have l: "parseRealizationBody tokens' (advance ?st2) = ?st4"
    unfolding parseRealizationBody_def
    by (intro realizationLoop_agree [OF ag ok4]) (simp add: parseRealizationBody_def)
  have r0: "tokens' ! tokenPos st = tokens ! tokenPos st" "tokenPos st < length tokens'"
    using r [of "tokenPos st"] p02 p24 by simp_all
  have r2: "tokens' ! tokenPos ?st2 = tokens ! tokenPos ?st2" "tokenPos ?st2 < length tokens'"
    using r [of "tokenPos ?st2"] p24 by simp_all
  have r4: "tokens' ! tokenPos ?st4 = tokens ! tokenPos ?st4" "tokenPos ?st4 < length tokens'"
    using r [of "tokenPos ?st4"] by simp_all
  have "parse tokens' st = ?st4"
    using var e2 beg e4 fin r0 r2 r4 d l by (auto simp: parse_def [of tokens'] Let_def)
  with res show "parse tokens' st = parse tokens st" by simp
qed

subsection \<open>A marker once pushed stays on the stack\<close>

lemma realizationStep_keeps_stack:
  "curType tokens st \<noteq> KEYWORD_END \<Longrightarrow>
   realizationStep tokens st blockStack = Next (st', blockStack') \<Longrightarrow>
   blockStack \<noteq> [] \<Longrightarrow> blockStack' \<noteq> []"
  by (auto simp: realizationStep_def Let_def split: if_splits prod.splits)

lemma realizationLoop_open_block:
  "blockStack \<noteq> [] \<Longrightarrow>
   \<exists>d. errors (realizationLoop tokens st blockStack) = errors st @ [d]"
proof (induction tokens st blockStack rule: realizationLoop.induct)
  case (1 tokens st blockStack)
  show ?case
  proof (cases "tokenPos st < length tokens \<and> curType tokens st \<noteq> KEYWORD_END")
    case False
    with "1.prems" show ?thesis
      by (auto simp: realizationLoop.simps [of tokens st blockStack])
  next
    case True
    show ?thesis
    proof (cases "realizationStep tokens st blockStack")
      case (Return r)
      with True realizationStep_Return [OF Return] show ?thesis
        by (auto simp: realizationLoop.simps [of tokens st blockStack])
    next
      case (Next q)
      obtain st1 bs1 where q: "q = (st1, bs1)" by (cases q)
      note step = Next [unfolded q]
      from True realizationStep_keeps_stack [OF _ step "1.prems"] have "bs1 \<noteq> []" by simp
      from "1.IH" [OF True step refl this] realizationStep_Next [OF step] True step
      show ?thesis
        by (auto simp: realizationLoop.simps [of tokens st blockStack])
    qed
  qed
qed

section \<open>The claims\<close>

text \<open>
  C1 (the code departs from the claim).  The claim: a well-formed program, nested
  constructs included, is accepted, and the structural validator pops a marker at an
  \<^verbatim>\<open>end\<close> and continues.  The loop of \<^verbatim>\<open>parseRealizationBody\<close> stops at every
  \<^verbatim>\<open>end\<close> token (line 303), so the branch that pops (lines 406 to 423) is never
  entered and a marker once pushed is never removed (\<open>realizationLoop_open_block\<close>): a
  \<^verbatim>\<open>while\<close>, an \<^verbatim>\<open>if\<close> or a \<^verbatim>\<open>begin\<close> closed by \<^verbatim>\<open>end;\<close> leaves its
  marker on the stack, and the run ends with the message of line 441.
\<close>

theorem nested_while_rejected:
  "errors (analyze ''Var i:integer;Begin while (i) do i:=0; end; End'') =
     [MissingEndToMatch ''while''] \<and>
   errors (analyze ''Var i:integer;Begin if (i) then i:=0; end; End'') =
     [MissingEndToMatch ''if''] \<and>
   errors (analyze ''Var i:integer;Begin begin i:=0; end; End'') =
     [MissingEndToMatch ''begin'']"
  by code_simp

text \<open>
  C2 as stated fails on the code.  For the input \<^verbatim>\<open>Var i:integer;Begin i=0;End\<close>
  the lone \<^verbatim>\<open>=\<close> is the error token at index 7, but the structural validator does
  not report the invalid-token message of line 305 for it.
\<close>

theorem lone_equals_not_invalid_token:
  "tokenize ''Var i:integer;Begin i=0;End'' ! 7 = mkToken ERROR ''='' \<and>
   InvalidTokenInRealization ''='' \<notin> set (errors (analyze ''Var i:integer;Begin i=0;End''))"
  by code_simp

text \<open>
  C2 as amended.  For the input \<^verbatim>\<open>Var i:integer;Begin i=0;End\<close> the lone \<^verbatim>\<open>=\<close> is
  tokenized as an error token; the structural validator, having consumed the identifier
  \<^verbatim>\<open>i\<close> before it, reports the missing-assignment message of line 320 for \<^verbatim>\<open>i\<close>
  as the only message, and stops at that token.
\<close>

theorem lone_equals_missing_assign:
  "tokenize ''Var i:integer;Begin i=0;End'' ! 7 = mkToken ERROR ''='' \<and>
   errors (analyze ''Var i:integer;Begin i=0;End'') = [MissingAssign ''i''] \<and>
   tokenPos (analyze ''Var i:integer;Begin i=0;End'') = 7"
  by code_simp

text \<open>
  C3 (the code departs from the claim).  The claim: text beginning with a digit, such as
  \<^verbatim>\<open>9i\<close>, is one error token carrying that text.  \<^verbatim>\<open>tokenize\<close> sends a leading
  digit to \<^verbatim>\<open>readNumber\<close>, which stops at the first non-digit, so \<^verbatim>\<open>9i\<close> is the
  number \<^verbatim>\<open>9\<close> followed by the identifier \<^verbatim>\<open>i\<close>, and the declaration validator
  reports the message of line 237 for \<^verbatim>\<open>9\<close>, not the error-token message of line 232
  for \<^verbatim>\<open>9i\<close>.
\<close>

theorem digit_led_text_is_number_then_identifier:
  "tokenize ''9i'' = [mkToken NUMBER ''9'', mkToken IDENTIFIER ''i''] \<and>
   errors (analyze ''Var 9i:integer;'') = [NoValidIdentifier ''9'']"
  by code_simp

text \<open>
  C4.  In the structural validator, at a \<^verbatim>\<open>while\<close> (and at an \<^verbatim>\<open>if\<close>, with
  \<^verbatim>\<open>then\<close> for \<^verbatim>\<open>do\<close>): when the next token is missing or is not an opening
  parenthesis, the validator returns with the missing-parenthesis message; when the
  parentheses after the opening one never balance, it returns at the end of the tokens
  with the unbalanced-parentheses message; and when the opening parenthesis is followed
  by any balanced run of tokens (empty, or of tokens of any kind) and a closing
  parenthesis, the run is skipped without a message, and the validator goes on behind the
  \<^verbatim>\<open>do\<close> with the marker pushed if \<^verbatim>\<open>do\<close> is the very next token, and
  returns with the missing-\<^verbatim>\<open>do\<close> message otherwise.
\<close>

theorem condition_scanned_by_paren_count:
  assumes "tokenPos st < length tokens"
    and "curType tokens st = KEYWORD_WHILE \<or> curType tokens st = KEYWORD_IF"
  shows
    "(drop (tokenPos st + 1) tokens = [] \<or>
      type_tok (hd (drop (tokenPos st + 1) tokens)) \<noteq> DELIMITER_LPAREN \<longrightarrow>
        realizationLoop tokens st blockStack =
          push_back (if curType tokens st = KEYWORD_WHILE then MissingLParenAfterWhile
                     else MissingLParenAfterIf) (advance st)) \<and>
     (drop (tokenPos st + 1) tokens = lp # ts \<and> type_tok lp = DELIMITER_LPAREN \<and>
      neverCloses ts \<longrightarrow>
        realizationLoop tokens st blockStack =
          push_back (if curType tokens st = KEYWORD_WHILE then UnbalancedWhileCondition
                     else UnbalancedIfCondition) (st\<lparr>tokenPos := length tokens\<rparr>)) \<and>
     (drop (tokenPos st + 1) tokens = lp # cond @ rp # rest \<and> type_tok lp = DELIMITER_LPAREN \<and>
      balanced cond \<and> type_tok rp = DELIMITER_RPAREN \<longrightarrow>
        realizationLoop tokens st blockStack =
          (if rest \<noteq> [] \<and>
              type_tok (hd rest) =
                (if curType tokens st = KEYWORD_WHILE then KEYWORD_DO else KEYWORD_THEN)
           then realizationLoop tokens (st\<lparr>tokenPos := tokenPos st + length cond + 4\<rparr>)
                  (blockStack @ [if curType tokens st = KEYWORD_WHILE then ''while'' else ''if''])
           else push_back (if curType tokens st = KEYWORD_WHILE then MissingDoAfterWhile
                           else MissingThenAfterIf)
                  (st\<lparr>tokenPos := tokenPos st + length cond + 3\<rparr>)))"
proof -
  from assms(2) have noend: "curType tokens st \<noteq> KEYWORD_END" by auto
  note loop = realizationLoop_step [OF assms(1) noend, of blockStack]
  show ?thesis
  proof (intro conjI impI)
    assume h: "drop (tokenPos st + 1) tokens = [] \<or>
      type_tok (hd (drop (tokenPos st + 1) tokens)) \<noteq> DELIMITER_LPAREN"
    from assms(2) while_if_no_paren [OF assms(1) h, of blockStack]
    show "realizationLoop tokens st blockStack =
          push_back (if curType tokens st = KEYWORD_WHILE then MissingLParenAfterWhile
                     else MissingLParenAfterIf) (advance st)"
      unfolding loop by auto
  next
    assume h: "drop (tokenPos st + 1) tokens = lp # ts \<and> type_tok lp = DELIMITER_LPAREN \<and>
      neverCloses ts"
    then have a: "drop (tokenPos st + 1) tokens = lp # ts" and b: "type_tok lp = DELIMITER_LPAREN"
      and c: "neverCloses ts" by simp_all
    from assms(2) while_if_unbalanced [OF a b c, of blockStack]
    show "realizationLoop tokens st blockStack =
          push_back (if curType tokens st = KEYWORD_WHILE then UnbalancedWhileCondition
                     else UnbalancedIfCondition) (st\<lparr>tokenPos := length tokens\<rparr>)"
      unfolding loop by auto
  next
    assume h: "drop (tokenPos st + 1) tokens = lp # cond @ rp # rest \<and>
      type_tok lp = DELIMITER_LPAREN \<and> balanced cond \<and> type_tok rp = DELIMITER_RPAREN"
    then have a: "drop (tokenPos st + 1) tokens = lp # cond @ rp # rest"
      and b: "type_tok lp = DELIMITER_LPAREN" and c: "balanced cond"
      and d: "type_tok rp = DELIMITER_RPAREN" by simp_all
    from assms(2) while_if_balanced [OF a b c d, of blockStack]
    show "realizationLoop tokens st blockStack =
          (if rest \<noteq> [] \<and>
              type_tok (hd rest) =
                (if curType tokens st = KEYWORD_WHILE then KEYWORD_DO else KEYWORD_THEN)
           then realizationLoop tokens (st\<lparr>tokenPos := tokenPos st + length cond + 4\<rparr>)
                  (blockStack @ [if curType tokens st = KEYWORD_WHILE then ''while'' else ''if''])
           else push_back (if curType tokens st = KEYWORD_WHILE then MissingDoAfterWhile
                           else MissingThenAfterIf)
                  (st\<lparr>tokenPos := tokenPos st + length cond + 3\<rparr>))"
      unfolding loop by auto
  qed
qed

theorem condition_scanned_by_paren_count_witness:
  "errors (realizationLoop [mkToken KEYWORD_WHILE ''while'', mkToken IDENTIFIER ''x''] initial [])
     = [MissingLParenAfterWhile] \<and>
   neverCloses [mkToken DELIMITER_LPAREN ''('', mkToken IDENTIFIER ''x'',
                mkToken DELIMITER_RPAREN '')''] \<and>
   errors (realizationLoop
      [mkToken KEYWORD_IF ''if'', mkToken DELIMITER_LPAREN ''('', mkToken DELIMITER_LPAREN ''('',
       mkToken IDENTIFIER ''x'', mkToken DELIMITER_RPAREN '')''] initial [])
     = [UnbalancedIfCondition] \<and>
   balanced [mkToken ERROR ''#'', mkToken DELIMITER_LPAREN ''('', mkToken KEYWORD_END ''end'',
             mkToken DELIMITER_RPAREN '')''] \<and>
   realizationLoop
      [mkToken KEYWORD_WHILE ''while'', mkToken DELIMITER_LPAREN ''('', mkToken ERROR ''#'',
       mkToken DELIMITER_LPAREN ''('', mkToken KEYWORD_END ''end'', mkToken DELIMITER_RPAREN '')'',
       mkToken DELIMITER_RPAREN '')'', mkToken KEYWORD_DO ''do''] initial []
     = realizationLoop
      [mkToken KEYWORD_WHILE ''while'', mkToken DELIMITER_LPAREN ''('', mkToken ERROR ''#'',
       mkToken DELIMITER_LPAREN ''('', mkToken KEYWORD_END ''end'', mkToken DELIMITER_RPAREN '')'',
       mkToken DELIMITER_RPAREN '')'', mkToken KEYWORD_DO ''do''] (initial\<lparr>tokenPos := 8\<rparr>)
      [''while''] \<and>
   balanced [] \<and>
   errors (realizationLoop
      [mkToken KEYWORD_IF ''if'', mkToken DELIMITER_LPAREN ''('', mkToken DELIMITER_RPAREN '')'']
      initial [])
     = [MissingThenAfterIf]"
proof -
  let ?A = "[mkToken KEYWORD_WHILE ''while'', mkToken IDENTIFIER ''x'']"
  let ?ts = "[mkToken DELIMITER_LPAREN ''('', mkToken IDENTIFIER ''x'',
              mkToken DELIMITER_RPAREN '')'']"
  let ?B = "mkToken KEYWORD_IF ''if'' # mkToken DELIMITER_LPAREN ''('' # ?ts"
  let ?cond = "[mkToken ERROR ''#'', mkToken DELIMITER_LPAREN ''('', mkToken KEYWORD_END ''end'',
                mkToken DELIMITER_RPAREN '')'']"
  let ?C = "mkToken KEYWORD_WHILE ''while'' # mkToken DELIMITER_LPAREN ''('' # ?cond @
            [mkToken DELIMITER_RPAREN '')'', mkToken KEYWORD_DO ''do'']"
  let ?D = "[mkToken KEYWORD_IF ''if'', mkToken DELIMITER_LPAREN ''('',
             mkToken DELIMITER_RPAREN '')'']"
  have nc: "neverCloses ?ts" by code_simp
  have bc: "balanced ?cond" by code_simp
  have be: "balanced []" by code_simp
  have a: "errors (realizationLoop ?A initial []) = [MissingLParenAfterWhile]"
    using condition_scanned_by_paren_count [where st = initial and tokens = ?A and blockStack = "[]"]
    by (simp add: initial_def mkToken_def)
  have b: "errors (realizationLoop ?B initial []) = [UnbalancedIfCondition]"
    using condition_scanned_by_paren_count
      [where st = initial and tokens = ?B and blockStack = "[]"
         and lp = "mkToken DELIMITER_LPAREN ''(''" and ts = ?ts] nc
    by (simp add: initial_def mkToken_def)
  have c: "realizationLoop ?C initial [] =
           realizationLoop ?C (initial\<lparr>tokenPos := 8\<rparr>) [''while'']"
    using condition_scanned_by_paren_count
      [where st = initial and tokens = ?C and blockStack = "[]"
         and lp = "mkToken DELIMITER_LPAREN ''(''" and cond = ?cond
         and rp = "mkToken DELIMITER_RPAREN '')''" and rest = "[mkToken KEYWORD_DO ''do'']"] bc
    by (simp add: initial_def mkToken_def)
  have d: "errors (realizationLoop ?D initial []) = [MissingThenAfterIf]"
    using condition_scanned_by_paren_count
      [where st = initial and tokens = ?D and blockStack = "[]"
         and lp = "mkToken DELIMITER_LPAREN ''(''" and cond = "[]"
         and rp = "mkToken DELIMITER_RPAREN '')''" and rest = "[]"] be
    by (simp add: initial_def mkToken_def)
  from a b c d nc bc be show ?thesis by simp
qed

text \<open>
  C5.  At the end of \<^verbatim>\<open>analyze\<close> the list of messages holds at most one message, for
  every source text; the declaration validator and the structural validator each append
  at most one message to the list they are started with.
\<close>

theorem at_most_one_diagnostic:
  "length (errors (analyze source)) \<le> 1 \<and>
   (\<exists>ds. errors (parseDefinitionBody tokens st) = errors st @ ds \<and> length ds \<le> 1) \<and>
   (\<exists>ds. errors (parseRealizationBody tokens st) = errors st @ ds \<and> length ds \<le> 1)"
proof -
  have "length (errors (analyze source)) \<le> 1"
    using parse_errors [of initial "tokenize source"]
    by (simp add: analyze_def analyzeTokens_def initial_def)
  with parseDefinitionBody_errors realizationLoop_frame show ?thesis
    by (simp add: parseRealizationBody_def)
qed

text \<open>
  C6.  When the run over a token sequence succeeds, the final position is at an
  \<^verbatim>\<open>end\<close> token, and the run is the same, with the same final state, over every
  sequence that has the tokens up to and including that \<^verbatim>\<open>end\<close> followed by any
  tokens whatever: no token behind that \<^verbatim>\<open>end\<close> is examined.
\<close>

theorem trailing_tokens_ignored:
  assumes "errors (analyzeTokens tokens) = []"
  shows "tokenPos (analyzeTokens tokens) < length tokens \<and>
         curType tokens (analyzeTokens tokens) = KEYWORD_END \<and>
         analyzeTokens (take (Suc (tokenPos (analyzeTokens tokens))) tokens @ trailing) =
           analyzeTokens tokens"
proof -
  from assms have ne: "tokens \<noteq> []" and eq: "analyzeTokens tokens = parse tokens initial"
    by (auto simp: analyzeTokens_def split: if_splits)
  have clean: "errors initial = []" by (simp add: initial_def)
  from assms eq have ok: "errors (parse tokens initial) = []" by simp
  note p = parse_agree [OF clean ok]
  let ?p = "tokenPos (parse tokens initial)"
  let ?tokens' = "take (Suc ?p) tokens @ trailing"
  from p(1) have "agreeUpTo ?p tokens ?tokens'" by (rule agreeUpTo_extend)
  from p(3) [OF this] have "parse ?tokens' initial = parse tokens initial" .
  moreover from ne have "?tokens' \<noteq> []" by simp
  ultimately have "analyzeTokens ?tokens' = analyzeTokens tokens"
    using eq ne by (simp add: analyzeTokens_def)
  with p(1,2) eq show ?thesis by simp
qed

theorem trailing_tokens_ignored_witness:
  "errors (analyze ''Var i:integer;Begin End'') = [] \<and>
   tokenize ''Var i:integer;Begin End End'' =
     take 7 (tokenize ''Var i:integer;Begin End'') @ [mkToken KEYWORD_END ''End''] \<and>
   errors (analyze ''Var i:integer;Begin End End'') = []"
proof -
  let ?tokens = "tokenize ''Var i:integer;Begin End''"
  have ok: "errors (analyzeTokens ?tokens) = []"
    and at: "tokenPos (analyzeTokens ?tokens) = 6"
    and longer: "tokenize ''Var i:integer;Begin End End'' =
      take 7 ?tokens @ [mkToken KEYWORD_END ''End'']"
    by code_simp+
  from trailing_tokens_ignored [OF ok, of "[mkToken KEYWORD_END ''End'']"] at
  have "analyzeTokens (take 7 ?tokens @ [mkToken KEYWORD_END ''End'']) = analyzeTokens ?tokens"
    by simp
  with ok longer show ?thesis by (simp add: analyze_def)
qed

text \<open>
  C7.  When the tokens at the current position are a declaration group
  \<^verbatim>\<open>ident{,ident}:type\<close> with a known type, and \<open>d\<close> is the first name of its list
  that is already in the symbol table (from an earlier group, or as one of the names
  \<open>pre\<close> before it in the same list), the declaration validator returns with the
  repeated-definition message for \<open>d\<close> appended, positioned behind the type; the names
  \<open>pre\<close> are in the table with the type of the group, and the table is otherwise as it
  was, so no name after \<open>d\<close> has been inserted.
\<close>

theorem repeated_name_reported:
  assumes "drop (tokenPos st) tokens = idl @ colon # ty # rest"
    and "identList idl (pre @ d # post)"
    and "type_tok colon = DELIMITER_COLON"
    and "toLower (value_tok ty) \<in> set types_set"
    and "distinct pre" and "\<forall>v \<in> set pre. symbolTable st v = None"
    and "symbolTable st d \<noteq> None \<or> d \<in> set pre"
  shows "parseDefinitionBody tokens st =
     st\<lparr>tokenPos := tokenPos st + length idl + 2,
        symbolTable := \<lambda>v. if v \<in> set pre then Some (toLower (value_tok ty))
                            else symbolTable st v,
        errors := errors st @ [RepeatedDefinition d]\<rparr>"
proof -
  from assms(2) obtain t ps where idl: "idl = t # ps" by (cases idl) auto
  obtain v vs where vars: "pre @ d # post = v # vs" by (cases "pre @ d # post") auto
  from assms(2) idl vars have t: "type_tok t = IDENTIFIER" and tv: "value_tok t = v"
    and ps: "commaPairs ps vs" by simp_all
  from assms(1) idl have dr: "drop (tokenPos st) tokens = t # (ps @ colon # ty # rest)" by simp
  note first = drop_eq_ConsD [OF dr]
  have colon_ne: "type_tok colon \<noteq> DELIMITER_COMMA" using assms(3) by simp
  have dr1: "drop (tokenPos (advance st)) tokens = ps @ colon # ty # rest"
    using first(3) by simp
  let ?st2 = "st\<lparr>tokenPos := tokenPos st + 1 + length ps\<rparr>"
  have comma: "commaLoop tokens (advance st) [v] = Next (?st2, pre @ d # post)"
    using commaLoop_pairs [OF ps dr1 colon_ne, of "[v]"] vars by simp
  from first(3) have "drop (Suc (tokenPos st)) tokens = ps @ (colon # ty # rest)" by simp
  from drop_after_run(1) [OF this]
  have dr2: "drop (tokenPos ?st2) tokens = colon # ty # rest" by simp
  note at_colon = drop_eq_ConsD [OF dr2]
  note at_type = drop_eq_ConsD [OF at_colon(3)]
  let ?st4 = "st\<lparr>tokenPos := tokenPos st + 1 + length ps + 2\<rparr>"
  have tab: "symbolTable ?st4 = symbolTable st" by simp
  have "insertVars (pre @ d # post) (toLower (value_tok ty)) ?st4 =
     Return (push_back (RepeatedDefinition d)
       (?st4\<lparr>symbolTable := \<lambda>v. if v \<in> set pre then Some (toLower (value_tok ty))
                                   else symbolTable ?st4 v\<rparr>))"
    using assms(5,6,7) by (intro insertVars_repeated) simp_all
  then have ins: "insertVars (pre @ d # post) (toLower (value_tok ty)) ?st4 =
     Return (push_back (RepeatedDefinition d)
       (?st4\<lparr>symbolTable := \<lambda>v. if v \<in> set pre then Some (toLower (value_tok ty))
                                   else symbolTable st v\<rparr>))"
    unfolding tab .
  have step: "definitionStep tokens st =
     Return (push_back (RepeatedDefinition d)
       (?st4\<lparr>symbolTable := \<lambda>v. if v \<in> set pre then Some (toLower (value_tok ty))
                                   else symbolTable st v\<rparr>))"
    using first t tv comma at_colon at_type assms(3,4) ins
    by (simp add: definitionStep_def Let_def)
  have "parseDefinitionBody tokens st =
     (case definitionStep tokens st of
        Return r \<Rightarrow> r
      | Next st' \<Rightarrow> parseDefinitionBody tokens st')"
    using first t by (intro parseDefinitionBody_step) simp_all
  with step idl show ?thesis by simp
qed

theorem repeated_name_reported_witness:
  "errors (parseDefinitionBody
      [mkToken IDENTIFIER ''j'', mkToken DELIMITER_COMMA '','', mkToken IDENTIFIER ''i'',
       mkToken DELIMITER_COMMA '','', mkToken IDENTIFIER ''k'', mkToken DELIMITER_COLON '':'',
       mkToken KEYWORD_BOOL ''Bool'', mkToken DELIMITER_SEMICOLON '';'']
      \<lparr>tokenPos = 0, symbolTable = [''i'' \<mapsto> ''integer''], errors = []\<rparr>)
     = [RepeatedDefinition ''i''] \<and>
   symbolTable (parseDefinitionBody
      [mkToken IDENTIFIER ''j'', mkToken DELIMITER_COMMA '','', mkToken IDENTIFIER ''i'',
       mkToken DELIMITER_COMMA '','', mkToken IDENTIFIER ''k'', mkToken DELIMITER_COLON '':'',
       mkToken KEYWORD_BOOL ''Bool'', mkToken DELIMITER_SEMICOLON '';'']
      \<lparr>tokenPos = 0, symbolTable = [''i'' \<mapsto> ''integer''], errors = []\<rparr>)
     = (\<lambda>v. if v \<in> set [''j''] then Some ''bool'' else [''i'' \<mapsto> ''integer''] v) \<and>
   tokenPos (parseDefinitionBody
      [mkToken IDENTIFIER ''j'', mkToken DELIMITER_COMMA '','', mkToken IDENTIFIER ''i'',
       mkToken DELIMITER_COMMA '','', mkToken IDENTIFIER ''k'', mkToken DELIMITER_COLON '':'',
       mkToken KEYWORD_BOOL ''Bool'', mkToken DELIMITER_SEMICOLON '';'']
      \<lparr>tokenPos = 0, symbolTable = [''i'' \<mapsto> ''integer''], errors = []\<rparr>)
     = 7"
proof -
  let ?idl = "[mkToken IDENTIFIER ''j'', mkToken DELIMITER_COMMA '','', mkToken IDENTIFIER ''i'',
               mkToken DELIMITER_COMMA '','', mkToken IDENTIFIER ''k'']"
  let ?st = "\<lparr>tokenPos = 0, symbolTable = [''i'' \<mapsto> ''integer''], errors = []\<rparr>"
  have low: "toLower ''Bool'' = ''bool''" by code_simp
  have idl: "identList ?idl ([''j''] @ ''i'' # [''k''])" by (simp add: mkToken_def)
  have ty: "toLower (value_tok (mkToken KEYWORD_BOOL ''Bool'')) \<in> set types_set"
    by (simp add: mkToken_def low types_set_def)
  have "parseDefinitionBody (?idl @ mkToken DELIMITER_COLON '':'' # mkToken KEYWORD_BOOL ''Bool'' #
            [mkToken DELIMITER_SEMICOLON '';'']) ?st =
        ?st\<lparr>tokenPos := tokenPos ?st + length ?idl + 2,
            symbolTable := \<lambda>v. if v \<in> set [''j'']
                                then Some (toLower (value_tok (mkToken KEYWORD_BOOL ''Bool'')))
                                else symbolTable ?st v,
            errors := errors ?st @ [RepeatedDefinition ''i'']\<rparr>"
    using idl ty
    by (intro repeated_name_reported
          [where colon = "mkToken DELIMITER_COLON '':''" and post = "[''k'']"
             and rest = "[mkToken DELIMITER_SEMICOLON '';'']"])
       (simp_all add: mkToken_def)
  then show ?thesis by (simp add: mkToken_def low cong: if_cong)
qed

text \<open>
  C8.  For a source text that is empty or holds only whitespace, \<^verbatim>\<open>tokenize\<close> yields
  no token and \<^verbatim>\<open>analyze\<close> ends in the state of a fresh analyzer with the single
  message \<open>EmptyProgram\<close>: the position in the tokens is still 0 and the symbol table
  is still empty, no parsing having been attempted.
\<close>

theorem whitespace_only_is_empty_program:
  assumes "list_all isspace source"
  shows "tokenize source = [] \<and> analyze source = push_back EmptyProgram initial"
proof -
  from assms have "\<And>i. i < length source \<Longrightarrow> isspace (source ! i)"
    by (simp add: list_all_length)
  then have "tokenize_from source 0 [] = ([], max 0 (length source))"
    by (intro tokenize_from_spaces) simp
  then have "tokenize source = []" by (simp add: tokenize_def)
  then show ?thesis by (simp add: analyze_def analyzeTokens_def)
qed

theorem whitespace_only_is_empty_program_witness:
  "list_all isspace [CHR '' '', CHR 0x09, CHR 0x0A] \<and>
   tokenize [CHR '' '', CHR 0x09, CHR 0x0A] = [] \<and>
   errors (analyze [CHR '' '', CHR 0x09, CHR 0x0A]) = [EmptyProgram]"
proof -
  have h: "list_all isspace [CHR '' '', CHR 0x09, CHR 0x0A]"
    by (simp add: isspace_def)
  from whitespace_only_is_empty_program [OF h] h show ?thesis by (simp add: initial_def)
qed

text \<open>
  C9.  The symbol table after \<^verbatim>\<open>parseRealizationBody\<close> is the symbol table it was
  started with, for every token sequence and every state; and the symbol table after
  \<^verbatim>\<open>parse\<close> is the one \<^verbatim>\<open>parseDefinitionBody\<close> produced (the one \<^verbatim>\<open>parse\<close>
  was started with when the leading \<^verbatim>\<open>var\<close> is missing).
\<close>

theorem symbol_table_read_only_in_realization:
  "symbolTable (parseRealizationBody tokens st) = symbolTable st \<and>
   symbolTable (parse tokens st) =
     (if atEnd tokens st \<or> curType tokens st \<noteq> KEYWORD_VAR then symbolTable st
      else symbolTable (parseDefinitionBody tokens (advance st)))"
proof -
  have frame: "symbolTable (parseRealizationBody tokens' st') = symbolTable st'" for tokens' st'
    using realizationLoop_frame [of tokens' st' "[]"] by (simp add: parseRealizationBody_def)
  then show ?thesis by (simp add: parse_def Let_def)
qed

text \<open>
  C10.  \<^verbatim>\<open>tokenize\<close> is total: the loop is defined by well-founded recursion on the
  number of characters left, it ends with \<^verbatim>\<open>pos\<close> at the end of the source, and it
  yields at most one token per character.  Each pass consumes at least one character and
  never runs past the end: the whitespace skip advances by one, and each of the three
  scans, under the test that selects it, returns a position strictly beyond the one it
  was started at.
\<close>

theorem tokenize_total:
  "snd (tokenize_from source 0 []) = length source \<and>
   length (tokenize source) \<le> length source \<and>
   (i < length source \<and> isalpha (source ! i) \<longrightarrow>
      i < snd (readIdentifierOrKeyword source i) \<and>
      snd (readIdentifierOrKeyword source i) \<le> length source) \<and>
   (j < length source \<and> isdigit (source ! j) \<longrightarrow>
      j < snd (readNumber source j) \<and> snd (readNumber source j) \<le> length source) \<and>
   (k < length source \<longrightarrow>
      k < snd (readOperator source k) \<and> snd (readOperator source k) \<le> length source)"
proof -
  have "snd (tokenize_from source 0 []) = length source"
    and "length (tokenize source) \<le> length source"
    using tokenize_from_result [of source 0 "[]"] by (simp_all add: tokenize_def)
  moreover have "i < snd (readIdentifierOrKeyword source i) \<and>
      snd (readIdentifierOrKeyword source i) \<le> length source"
    if "i < length source" "isalpha (source ! i)"
    using that readIdentifierOrKeyword_advances readIdentifierOrKeyword_bound by simp
  moreover have "j < snd (readNumber source j) \<and> snd (readNumber source j) \<le> length source"
    if "j < length source" "isdigit (source ! j)"
    using that readNumber_advances readNumber_bound by simp
  moreover have "k < snd (readOperator source k) \<and> snd (readOperator source k) \<le> length source"
    if "k < length source"
    using that readOperator_advances readOperator_bound by simp
  ultimately show ?thesis by blast
qed

theorem tokenize_total_witness:
  "isalpha (''x1+ '' ! 0) \<and> isdigit (''x1+ '' ! 1) \<and> (2::nat) < length ''x1+ '' \<and>
   snd (tokenize_from ''x1+ '' 0 []) = 4 \<and>
   length (tokenize ''x1+ '') \<le> 4 \<and>
   0 < snd (readIdentifierOrKeyword ''x1+ '' 0) \<and>
   1 < snd (readNumber ''x1+ '' 1) \<and>
   2 < snd (readOperator ''x1+ '' 2) \<and> snd (readOperator ''x1+ '' 2) \<le> 4"
proof -
  have h: "(0::nat) < length ''x1+ ''" "isalpha (''x1+ '' ! 0)"
    "(1::nat) < length ''x1+ ''" "isdigit (''x1+ '' ! 1)" "(2::nat) < length ''x1+ ''"
    by (simp_all add: isalpha_def islower_def isupper_def isdigit_def)
  from tokenize_total [of "''x1+ ''" 0 1 2] h show ?thesis by simp
qed

end
